theory Spec2Isabelle
  imports Main "HOL-Library.Sublist" "HOL-Library.Char_ord"
begin

section \<open>Strings as the source uses them\<close>

text \<open>
  A source string is modelled as a \<^typ>\<open>string\<close>: a list of code units, of which the model
  covers the code units below 256.  Every pattern and every separator of the source is
  ASCII, so a code unit outside that range never matches a literal or a bracket
  expression.  \<open>startsWith\<close> is \<^const>\<open>prefix\<close> and \<open>substring(n)\<close> is \<^const>\<open>drop\<close>.
\<close>

text \<open>
  \<open>s.includes(sub)\<close>: some position of \<open>s\<close> starts an occurrence of \<open>sub\<close>.
\<close>

fun includesJS :: "string \<Rightarrow> string \<Rightarrow> bool" where
  "includesJS sub [] = (sub = [])"
| "includesJS sub (c # cs) = (prefix sub (c # cs) \<or> includesJS sub cs)"

text \<open>
  \<open>s.split(sep)\<close> for a non-empty separator string: the pieces between the occurrences of
  \<open>sep\<close>, found from the left without overlap.  The empty string splits into one empty
  piece.  The source calls it with the separators \<open>.\<close>, \<open>:\<close>, \<open>,\<close> and \<open>::\<close> only; for the
  empty separator (never used) the model returns the string as its single piece.
\<close>

function splitJS :: "string \<Rightarrow> string \<Rightarrow> string list" where
  "splitJS sep [] = [ [] ]"
| "splitJS sep (c # cs) =
     (if sep \<noteq> [] \<and> prefix sep (c # cs) then [] # splitJS sep (drop (length sep) (c # cs))
      else (case splitJS sep cs of
              [] \<Rightarrow> [ [c] ]
            | p # ps \<Rightarrow> (c # p) # ps))"
  by pat_completeness auto
termination
  by (relation "measure (\<lambda>(sep, s). length s)") (auto simp: neq_Nil_conv)

text \<open>\<open>xs.join(sep)\<close>: the pieces with \<open>sep\<close> between neighbours; no piece gives the empty string.\<close>

fun joinJS :: "string \<Rightarrow> string list \<Rightarrow> string" where
  "joinJS sep [] = []"
| "joinJS sep [x] = x"
| "joinJS sep (x # y # ys) = x @ sep @ joinJS sep (y # ys)"

text \<open>\<open>g.padStart(n, '0')\<close>: zeros in front up to width \<open>n\<close>; a longer string is unchanged.\<close>

definition padStart :: "nat \<Rightarrow> char \<Rightarrow> string \<Rightarrow> string" where
  "padStart n c g = replicate (n - length g) c @ g"

text \<open>
  \<open>s.trim()\<close> removes white space and line terminators at both ends.  Of these the code
  units below 256 are U+0009 to U+000D, U+0020 and U+00A0.
\<close>

definition isWhiteSpace :: "char \<Rightarrow> bool" where
  "isWhiteSpace c \<longleftrightarrow> c \<in> set [CHR 0x09, CHR 0x0A, CHR 0x0B, CHR 0x0C, CHR 0x0D, CHR 0x20, CHR 0xA0]"

definition trim :: "string \<Rightarrow> string" where
  "trim s = rev (dropWhile isWhiteSpace (rev (dropWhile isWhiteSpace s)))"

text \<open>
  An optional string (\<open>undefined\<close> is \<^const>\<open>None\<close>) is truthy when it is present and not
  empty; \<open>a || b\<close> is \<open>a\<close> when \<open>a\<close> is truthy and \<open>b\<close> otherwise.
\<close>

definition truthy :: "string option \<Rightarrow> bool" where
  "truthy v = (case v of None \<Rightarrow> False | Some s \<Rightarrow> s \<noteq> [])"

definition js_or :: "string option \<Rightarrow> string option \<Rightarrow> string option" where
  "js_or a b = (if truthy a then a else b)"

section \<open>Errors\<close>

text \<open>
  The reversal functions throw \<open>new Error(message)\<close>; the specification calls this kind
  \<open>InvalidAddress\<close>.  \<open>Array(n)\<close> with a negative \<open>n\<close> throws a \<open>RangeError\<close>, and calling a
  method on \<open>undefined\<close> throws a \<open>TypeError\<close>.
\<close>

datatype error = InvalidAddress string | RangeError | TypeError

section \<open>Patterns\<close>

text \<open>
  The two validators are regular expression literals without flags.  A pattern is
  embedded as a term of the following type: literal text, a bracket expression (a list of
  inclusive character ranges; a single character \<open>c\<close> is the range from \<open>c\<close> to \<open>c\<close>),
  sequence, alternation \<open>a|b\<close>, and the quantifiers \<open>r{lo,hi}\<close> and \<open>r{lo,}\<close>
  (\<open>r?\<close> is \<open>r{0,1}\<close>).
\<close>

datatype regex =
    Lit string
  | Chars "(char \<times> char) list"
  | Cat regex regex
  | Alt regex regex
  | Repeat nat "nat option" regex

definition inRanges :: "(char \<times> char) list \<Rightarrow> char \<Rightarrow> bool" where
  "inRanges rs c = list_ex (\<lambda>(lo, hi). lo \<le> c \<and> c \<le> hi) rs"

text \<open>
  Matching is by backtracking: \<open>rmatch r s\<close> lists what is left of \<open>s\<close> after each way
  of matching \<open>r\<close> at its start.  A quantifier runs its body \<open>lo\<close> times (\<open>iter\<close>) and
  then up to \<open>hi - lo\<close> further times (\<open>extra\<close>); as ECMAScript defines quantifiers, a
  further iteration that consumes nothing is not taken, so an open upper bound needs no
  more iterations than the characters left.
\<close>

fun iter :: "(string \<Rightarrow> string list) \<Rightarrow> nat \<Rightarrow> string \<Rightarrow> string list" where
  "iter f 0 s = [s]"
| "iter f (Suc k) s = concat (map (iter f k) (f s))"

fun extra :: "(string \<Rightarrow> string list) \<Rightarrow> nat \<Rightarrow> string \<Rightarrow> string list" where
  "extra f 0 s = [s]"
| "extra f (Suc n) s = s # concat (map (extra f n) (filter (\<lambda>t. length t < length s) (f s)))"

primrec rmatch :: "regex \<Rightarrow> string \<Rightarrow> string list" where
  "rmatch (Lit w) = (\<lambda>s. if prefix w s then [drop (length w) s] else [])"
| "rmatch (Chars rs) = (\<lambda>s. case s of [] \<Rightarrow> [] | c # cs \<Rightarrow> if inRanges rs c then [cs] else [])"
| "rmatch (Cat a b) = (\<lambda>s. concat (map (rmatch b) (rmatch a s)))"
| "rmatch (Alt a b) = (\<lambda>s. rmatch a s @ rmatch b s)"
| "rmatch (Repeat lo hi r) =
     (\<lambda>s. concat (map (\<lambda>t. extra (rmatch r) (case hi of Some h \<Rightarrow> h - lo | None \<Rightarrow> length t) t)
                       (iter (rmatch r) lo s)))"

text \<open>
  \<open>/^r$/.test(s)\<close>: without the multiline flag the anchors are the two ends of the
  string, so the test succeeds when some way of matching \<open>r\<close> leaves nothing.
\<close>

definition test :: "regex \<Rightarrow> string \<Rightarrow> bool" where
  "test r s \<longleftrightarrow> [] \<in> set (rmatch r s)"

subsection \<open>The IPv4 pattern\<close>

definition digit :: regex where
  "digit = Chars [(CHR ''0'', CHR ''9'')]"

text \<open>\<open>(25[0-5]|2[0-4][0-9]|[01]?[0-9][0-9]?)\<close>\<close>

definition octet :: regex where
  "octet =
     Alt (Cat (Lit ''25'') (Chars [(CHR ''0'', CHR ''5'')]))
    (Alt (Cat (Lit ''2'') (Cat (Chars [(CHR ''0'', CHR ''4'')]) digit))
         (Cat (Repeat 0 (Some 1) (Chars [(CHR ''0'', CHR ''0''), (CHR ''1'', CHR ''1'')]))
              (Cat digit (Repeat 0 (Some 1) digit))))"

text \<open>Four octets with \<open>\.\<close> between them.\<close>

definition ipv4Regex :: regex where
  "ipv4Regex =
     Cat octet (Cat (Lit ''.'') (Cat octet (Cat (Lit ''.'') (Cat octet (Cat (Lit ''.'') octet)))))"

subsection \<open>The IPv6 pattern\<close>

text \<open>\<open>[0-9a-fA-F]\<close>, \<open>[0-9a-fA-F]{1,4}\<close>, \<open>([0-9a-fA-F]{1,4}:)\<close> and \<open>(:[0-9a-fA-F]{1,4})\<close>\<close>

definition hexdigit :: regex where
  "hexdigit = Chars [(CHR ''0'', CHR ''9''), (CHR ''a'', CHR ''f''), (CHR ''A'', CHR ''F'')]"

definition h16 :: regex where
  "h16 = Repeat 1 (Some 4) hexdigit"

definition h16c :: regex where
  "h16c = Cat h16 (Lit '':'')"

definition ch16 :: regex where
  "ch16 = Cat (Lit '':'') h16"

text \<open>\<open>(25[0-5]|(2[0-4]|1{0,1}[0-9]){0,1}[0-9])\<close>\<close>

definition dec8 :: regex where
  "dec8 =
     Alt (Cat (Lit ''25'') (Chars [(CHR ''0'', CHR ''5'')]))
         (Cat (Repeat 0 (Some 1)
                 (Alt (Cat (Lit ''2'') (Chars [(CHR ''0'', CHR ''4'')]))
                      (Cat (Repeat 0 (Some 1) (Lit ''1'')) digit)))
              digit)"

text \<open>\<open>(dec8\.){3,3}dec8\<close>\<close>

definition v4tail :: regex where
  "v4tail = Cat (Repeat 3 (Some 3) (Cat dec8 (Lit ''.''))) dec8"

text \<open>The twelve alternatives of the pattern, in its order.\<close>

text \<open>\<open>([0-9a-fA-F]{1,4}:){7,7}[0-9a-fA-F]{1,4}\<close>\<close>

definition ipv6Alt1 :: regex where
  "ipv6Alt1 = Cat (Repeat 7 (Some 7) h16c) h16"

text \<open>\<open>([0-9a-fA-F]{1,4}:){1,7}:\<close>\<close>

definition ipv6Alt2 :: regex where
  "ipv6Alt2 = Cat (Repeat 1 (Some 7) h16c) (Lit '':'')"

text \<open>\<open>([0-9a-fA-F]{1,4}:){1,6}:[0-9a-fA-F]{1,4}\<close>\<close>

definition ipv6Alt3 :: regex where
  "ipv6Alt3 = Cat (Repeat 1 (Some 6) h16c) ch16"

text \<open>\<open>([0-9a-fA-F]{1,4}:){1,5}(:[0-9a-fA-F]{1,4}){1,2}\<close>\<close>

definition ipv6Alt4 :: regex where
  "ipv6Alt4 = Cat (Repeat 1 (Some 5) h16c) (Repeat 1 (Some 2) ch16)"

text \<open>\<open>([0-9a-fA-F]{1,4}:){1,4}(:[0-9a-fA-F]{1,4}){1,3}\<close>\<close>

definition ipv6Alt5 :: regex where
  "ipv6Alt5 = Cat (Repeat 1 (Some 4) h16c) (Repeat 1 (Some 3) ch16)"

text \<open>\<open>([0-9a-fA-F]{1,4}:){1,3}(:[0-9a-fA-F]{1,4}){1,4}\<close>\<close>

definition ipv6Alt6 :: regex where
  "ipv6Alt6 = Cat (Repeat 1 (Some 3) h16c) (Repeat 1 (Some 4) ch16)"

text \<open>\<open>([0-9a-fA-F]{1,4}:){1,2}(:[0-9a-fA-F]{1,4}){1,5}\<close>\<close>

definition ipv6Alt7 :: regex where
  "ipv6Alt7 = Cat (Repeat 1 (Some 2) h16c) (Repeat 1 (Some 5) ch16)"

text \<open>\<open>[0-9a-fA-F]{1,4}:((:[0-9a-fA-F]{1,4}){1,6})\<close>\<close>

definition ipv6Alt8 :: regex where
  "ipv6Alt8 = Cat h16c (Repeat 1 (Some 6) ch16)"

text \<open>\<open>:((:[0-9a-fA-F]{1,4}){1,7}|:)\<close>\<close>

definition ipv6Alt9 :: regex where
  "ipv6Alt9 = Cat (Lit '':'') (Alt (Repeat 1 (Some 7) ch16) (Lit '':''))"

text \<open>\<open>fe80:(:[0-9a-fA-F]{0,4}){0,4}%[0-9a-zA-Z]{1,}\<close>\<close>

definition alnum :: regex where
  "alnum = Chars [(CHR ''0'', CHR ''9''), (CHR ''a'', CHR ''z''), (CHR ''A'', CHR ''Z'')]"

definition ipv6Alt10 :: regex where
  "ipv6Alt10 =
     Cat (Lit ''fe80:'')
    (Cat (Repeat 0 (Some 4) (Cat (Lit '':'') (Repeat 0 (Some 4) hexdigit)))
    (Cat (Lit ''%'') (Repeat 1 None alnum)))"

text \<open>\<open>::(ffff(:0{1,4}){0,1}:){0,1}\<close> and the dotted tail\<close>

definition ipv6Alt11 :: regex where
  "ipv6Alt11 =
     Cat (Lit ''::'')
    (Cat (Repeat 0 (Some 1)
            (Cat (Lit ''ffff'')
            (Cat (Repeat 0 (Some 1) (Cat (Lit '':'') (Repeat 1 (Some 4) (Lit ''0''))))
                 (Lit '':''))))
         v4tail)"

text \<open>\<open>([0-9a-fA-F]{1,4}:){1,4}:\<close> and the dotted tail\<close>

definition ipv6Alt12 :: regex where
  "ipv6Alt12 = Cat (Repeat 1 (Some 4) h16c) (Cat (Lit '':'') v4tail)"

definition ipv6Regex :: regex where
  "ipv6Regex =
     Alt ipv6Alt1 (Alt ipv6Alt2 (Alt ipv6Alt3 (Alt ipv6Alt4 (Alt ipv6Alt5 (Alt ipv6Alt6
    (Alt ipv6Alt7 (Alt ipv6Alt8 (Alt ipv6Alt9 (Alt ipv6Alt10 (Alt ipv6Alt11 ipv6Alt12))))))))))"

section \<open>Validation, expansion and reversal\<close>

definition isValidIPv4 :: "string \<Rightarrow> bool" where
  "isValidIPv4 ip = test ipv4Regex ip"

definition isValidIPv6 :: "string \<Rightarrow> bool" where
  "isValidIPv6 ip = test ipv6Regex ip"

definition isValidIP :: "string \<Rightarrow> bool" where
  "isValidIP ip \<longleftrightarrow> isValidIPv4 ip \<or> isValidIPv6 ip"

definition reverseIPv4 :: "string \<Rightarrow> error + string" where
  "reverseIPv4 ip =
     (if \<not> isValidIPv4 ip then Inl (InvalidAddress ''Invalid IPv4 address'')
      else Inr (joinJS ''.'' (rev (splitJS ''.'' ip))))"

text \<open>
  \<open>parts[i] ? parts[i].split(':') : []\<close>: an index past the end gives \<open>undefined\<close>, which
  is falsy like the empty string.  In \<open>expandIPv6\<close> the parameter \<open>ip\<close> is assigned the
  joined groups when it contains \<open>::\<close>; \<open>Array(missingGroups)\<close> throws on a negative
  length.
\<close>

definition groupsOf :: "string list \<Rightarrow> nat \<Rightarrow> string list" where
  "groupsOf parts i =
     (if i < length parts \<and> parts ! i \<noteq> [] then splitJS '':'' (parts ! i) else [])"

definition expandIPv6 :: "string \<Rightarrow> error + string" where
  "expandIPv6 ip =
     (let afterCompression =
        (if includesJS ''::'' ip then
           (let parts = splitJS ''::'' ip;
                leftPart = groupsOf parts 0;
                rightPart = groupsOf parts 1;
                totalGroups = (8 :: int);
                missingGroups = totalGroups - int (length leftPart) - int (length rightPart)
            in if missingGroups < 0 then Inl RangeError
               else (let zeroGroups = replicate (nat missingGroups) ''0000'';
                         fullParts = leftPart @ zeroGroups @ rightPart
                     in Inr (joinJS '':'' fullParts)))
         else Inr ip)
      in case afterCompression of
           Inl e \<Rightarrow> Inl e
         | Inr ip' \<Rightarrow> Inr (joinJS '':'' (map (padStart 4 (CHR ''0'')) (splitJS '':'' ip'))))"

definition reverseIPv6 :: "string \<Rightarrow> error + string" where
  "reverseIPv6 ip =
     (if \<not> isValidIPv6 ip then Inl (InvalidAddress ''Invalid IPv6 address'')
      else (case expandIPv6 ip of
              Inl e \<Rightarrow> Inl e
            | Inr expandedIP \<Rightarrow> Inr (joinJS '':'' (rev (splitJS '':'' expandedIP)))))"

definition reverseIP :: "string \<Rightarrow> error + string" where
  "reverseIP ip =
     (if isValidIPv4 ip then reverseIPv4 ip
      else if isValidIPv6 ip then reverseIPv6 ip
      else Inl (InvalidAddress ''Invalid IP address format''))"

section \<open>Client address extraction\<close>

record sock =
  remoteAddress :: "string option"

record request =
  headers :: "string \<rightharpoonup> string"
  connection :: "sock option"
  socket :: "sock option"

text \<open>\<open>x?.remoteAddress\<close>: \<open>undefined\<close> when \<open>x\<close> is.\<close>

definition remoteAddressOf :: "sock option \<Rightarrow> string option" where
  "remoteAddressOf x = (case x of None \<Rightarrow> None | Some k \<Rightarrow> remoteAddress k)"

text \<open>The constant \<open>clientIP\<close> of the source: the raw address of the connection.\<close>

definition rawAddress :: "request \<Rightarrow> string option" where
  "rawAddress req = js_or (remoteAddressOf (connection req)) (remoteAddressOf (socket req))"

text \<open>
  The four statements of the source in their order.  \<^const>\<open>the\<close> is applied to truthy values
  only, and to \<open>clientIP || 'unknown'\<close>, which is never \<open>undefined\<close>.  Indexing the split
  result at 0 gives \<open>undefined\<close> on an empty array, on which \<open>trim\<close> would throw.
\<close>

definition extractClientIP :: "request \<Rightarrow> error + string" where
  "extractClientIP req =
     (let forwarded = headers req ''x-forwarded-for'';
          realIP = headers req ''x-real-ip'';
          clientIP = rawAddress req
      in if truthy forwarded then
           (case splitJS '','' (the forwarded) of
              [] \<Rightarrow> Inl TypeError
            | p # _ \<Rightarrow> Inr (trim p))
         else if truthy realIP then Inr (the realIP)
         else if truthy clientIP \<and> prefix ''::ffff:'' (the clientIP) then Inr (drop 7 (the clientIP))
         else Inr (the (js_or clientIP (Some ''unknown''))))"

definition normalizeIP :: "string \<Rightarrow> string" where
  "normalizeIP ip = (if prefix ''::ffff:'' ip then drop 7 ip else ip)"

text \<open>A request with an empty \<open>x-real-ip\<close> header, no forwarded header and a connection address.\<close>

definition emptyRealIPRequest :: request where
  "emptyRealIPRequest =
     \<lparr>headers = (\<lambda>h. if h = ''x-real-ip'' then Some [] else None),
      connection = Some \<lparr>remoteAddress = Some ''10.0.0.1''\<rparr>,
      socket = None\<rparr>"

text \<open>Requests with one candidate each, and one with none.\<close>

definition forwardedRequest :: request where
  "forwardedRequest =
     \<lparr>headers = (\<lambda>h. if h = ''x-forwarded-for'' then Some ''10.0.20.21, 5.5.5.5'' else None),
      connection = None,
      socket = None\<rparr>"

definition realIPRequest :: request where
  "realIPRequest =
     \<lparr>headers = (\<lambda>h. if h = ''x-real-ip'' then Some ''203.0.113.7'' else None),
      connection = Some \<lparr>remoteAddress = Some ''10.0.0.1''\<rparr>,
      socket = None\<rparr>"

definition mappedRequest :: request where
  "mappedRequest =
     \<lparr>headers = (\<lambda>h. None),
      connection = Some \<lparr>remoteAddress = Some ''::ffff:192.168.1.1''\<rparr>,
      socket = None\<rparr>"

definition socketRequest :: request where
  "socketRequest =
     \<lparr>headers = (\<lambda>h. None),
      connection = None,
      socket = Some \<lparr>remoteAddress = Some ''2001:db8::1''\<rparr>\<rparr>"

definition bareRequest :: request where
  "bareRequest = \<lparr>headers = (\<lambda>h. None), connection = None, socket = None\<rparr>"

section \<open>The language of a pattern and the shapes of addresses\<close>

text \<open>
  The strings a pattern matches from its first to its last character.  A quantifier takes
  \<open>lo\<close> iterations of its body and then further ones, each consuming at least one
  character, up to its upper bound.
\<close>

primrec lang :: "regex \<Rightarrow> string set" where
  "lang (Lit w) = {w}"
| "lang (Chars rs) = {[c] | c. inRanges rs c}"
| "lang (Cat a b) = {p @ q | p q. p \<in> lang a \<and> q \<in> lang b}"
| "lang (Alt a b) = lang a \<union> lang b"
| "lang (Repeat lo hi r) =
     {concat ps @ concat qs | ps qs.
        length ps = lo \<and> set ps \<subseteq> lang r \<and> set qs \<subseteq> lang r - {[]}
        \<and> (case hi of Some h \<Rightarrow> length qs \<le> h - lo | None \<Rightarrow> True)}"

text \<open>
  Bounds, read off the pattern, on how often a character occurs in a match: at most
  \<open>maxCount\<close> times (\<^const>\<open>None\<close> when there is no bound) and at least \<open>minCount\<close> times.
\<close>

primrec maxCount :: "char \<Rightarrow> regex \<Rightarrow> nat option" where
  "maxCount c (Lit w) = Some (count_list w c)"
| "maxCount c (Chars rs) = Some (if inRanges rs c then 1 else 0)"
| "maxCount c (Cat a b) =
     (case (maxCount c a, maxCount c b) of (Some m, Some n) \<Rightarrow> Some (m + n) | _ \<Rightarrow> None)"
| "maxCount c (Alt a b) =
     (case (maxCount c a, maxCount c b) of (Some m, Some n) \<Rightarrow> Some (max m n) | _ \<Rightarrow> None)"
| "maxCount c (Repeat lo hi r) =
     (case maxCount c r of
        None \<Rightarrow> None
      | Some m \<Rightarrow>
          if m = 0 then Some 0
          else (case hi of None \<Rightarrow> None | Some h \<Rightarrow> Some (max lo h * m)))"

primrec minCount :: "char \<Rightarrow> regex \<Rightarrow> nat" where
  "minCount c (Lit w) = count_list w c"
| "minCount c (Chars rs) = (if list_all (\<lambda>(lo, hi). lo = c \<and> hi = c) rs then 1 else 0)"
| "minCount c (Cat a b) = minCount c a + minCount c b"
| "minCount c (Alt a b) = min (minCount c a) (minCount c b)"
| "minCount c (Repeat lo hi r) = lo * minCount c r"

text \<open>Character classes, decimal values and groups, for stating what the patterns accept.\<close>

definition isDigit :: "char \<Rightarrow> bool" where
  "isDigit c \<longleftrightarrow> CHR ''0'' \<le> c \<and> c \<le> CHR ''9''"

definition isHexDigit :: "char \<Rightarrow> bool" where
  "isHexDigit c \<longleftrightarrow>
     isDigit c \<or> (CHR ''a'' \<le> c \<and> c \<le> CHR ''f'') \<or> (CHR ''A'' \<le> c \<and> c \<le> CHR ''F'')"

definition isAlnum :: "char \<Rightarrow> bool" where
  "isAlnum c \<longleftrightarrow>
     isDigit c \<or> (CHR ''a'' \<le> c \<and> c \<le> CHR ''z'') \<or> (CHR ''A'' \<le> c \<and> c \<le> CHR ''Z'')"

definition decVal :: "string \<Rightarrow> nat" where
  "decVal x = foldl (\<lambda>n c. 10 * n + (of_char c - 48)) 0 x"

text \<open>One to three decimal digits with a value of at most 255; leading zeros are allowed.\<close>

definition decOctet :: "string \<Rightarrow> bool" where
  "decOctet x \<longleftrightarrow> 1 \<le> length x \<and> length x \<le> 3 \<and> list_all isDigit x \<and> decVal x \<le> 255"

text \<open>One to four hexadecimal digits.\<close>

definition hexGroup :: "string \<Rightarrow> bool" where
  "hexGroup g \<longleftrightarrow> 1 \<le> length g \<and> length g \<le> 4 \<and> list_all isHexDigit g"

text \<open>
  The shapes of the strings the IPv6 pattern accepts.  Groups written one after the other,
  each followed or each preceded by a colon:
\<close>

definition colonAfter :: "string list \<Rightarrow> string" where
  "colonAfter gs = concat (map (\<lambda>g. g @ '':'') gs)"

definition colonBefore :: "string list \<Rightarrow> string" where
  "colonBefore gs = concat (map (\<lambda>g. CHR '':'' # g) gs)"

text \<open>Eight groups joined by colons.\<close>

definition fullForm :: "string \<Rightarrow> bool" where
  "fullForm s \<longleftrightarrow> (\<exists>gs. length gs = 8 \<and> list_all hexGroup gs \<and> s = joinJS '':'' gs)"

text \<open>
  One \<open>::\<close> with groups joined by colons on its left and on its right, either side
  possibly without groups; \<open>compressedBetween\<close> bounds the two numbers of groups
  separately and \<open>compressedForm\<close> bounds their sum by 7.
\<close>

definition compressedBetween :: "nat \<Rightarrow> nat \<Rightarrow> nat \<Rightarrow> nat \<Rightarrow> string \<Rightarrow> bool" where
  "compressedBetween lmin lmax rmin rmax s \<longleftrightarrow>
     (\<exists>L R. lmin \<le> length L \<and> length L \<le> lmax \<and> rmin \<le> length R \<and> length R \<le> rmax
        \<and> list_all hexGroup L \<and> list_all hexGroup R
        \<and> s = joinJS '':'' L @ ''::'' @ joinJS '':'' R)"

definition compressedForm :: "string \<Rightarrow> bool" where
  "compressedForm s \<longleftrightarrow>
     (\<exists>L R. length L + length R \<le> 7 \<and> list_all hexGroup L \<and> list_all hexGroup R
        \<and> s = joinJS '':'' L @ ''::'' @ joinJS '':'' R)"

text \<open>
  The zone form: \<open>fe80:\<close>, then at most four parts, each a colon and at most four
  hexadecimal digits (possibly none), then \<open>%\<close> and a zone of one or more letters and
  digits.
\<close>

definition zoneGroup :: "string \<Rightarrow> bool" where
  "zoneGroup g \<longleftrightarrow> length g \<le> 4 \<and> list_all isHexDigit g"

definition zoneForm :: "string \<Rightarrow> bool" where
  "zoneForm s \<longleftrightarrow>
     (\<exists>gs z. length gs \<le> 4 \<and> list_all zoneGroup gs \<and> z \<noteq> [] \<and> list_all isAlnum z
        \<and> s = ''fe80:'' @ colonBefore gs @ ''%'' @ z)"

text \<open>
  The forms with a dotted tail.  An octet of the tail is an octet without a leading zero
  when it has three digits; the tail is four of them joined by dots.  Before the tail
  comes \<open>::\<close>, optionally followed by \<open>ffff:\<close> or by \<open>ffff:\<close>, one to four zeros and a
  colon; or one to four groups and \<open>::\<close>.
\<close>

definition tailOctet :: "string \<Rightarrow> bool" where
  "tailOctet x \<longleftrightarrow> decOctet x \<and> (length x = 3 \<longrightarrow> hd x \<noteq> CHR ''0'')"

definition dottedQuad :: "string \<Rightarrow> bool" where
  "dottedQuad q \<longleftrightarrow>
     (\<exists>a b c d. tailOctet a \<and> tailOctet b \<and> tailOctet c \<and> tailOctet d
        \<and> q = a @ ''.'' @ b @ ''.'' @ c @ ''.'' @ d)"

definition mappedPrefix :: "string \<Rightarrow> bool" where
  "mappedPrefix p \<longleftrightarrow>
     p = [] \<or> p = ''ffff:''
     \<or> (\<exists>n. 1 \<le> n \<and> n \<le> 4 \<and> p = ''ffff:'' @ replicate n (CHR ''0'') @ '':'')"

definition tailForm :: "string \<Rightarrow> bool" where
  "tailForm s \<longleftrightarrow>
     (\<exists>p q. mappedPrefix p \<and> dottedQuad q \<and> s = ''::'' @ p @ q)
     \<or> (\<exists>L q. 1 \<le> length L \<and> length L \<le> 4 \<and> list_all hexGroup L \<and> dottedQuad q
           \<and> s = joinJS '':'' L @ ''::'' @ q)"

text \<open>A fully expanded address: eight groups of exactly four hexadecimal digits.\<close>

definition fullyExpanded :: "string \<Rightarrow> bool" where
  "fullyExpanded s \<longleftrightarrow>
     (\<exists>gs. length gs = 8 \<and> list_all (\<lambda>g. length g = 4 \<and> list_all isHexDigit g) gs
        \<and> s = joinJS '':'' gs)"

text \<open>Groups as they come out of a split at colons: each not empty and without a colon.\<close>

definition words :: "string list \<Rightarrow> bool" where
  "words gs \<longleftrightarrow> (\<forall>g\<in>set gs. g \<noteq> [] \<and> CHR '':'' \<notin> set g)"

section \<open>Facts about the string operations\<close>

lemma splitJS_not_Nil: "splitJS sep s \<noteq> []"
  by (induction sep s rule: splitJS.induct) (auto split: list.splits)

lemma splitJS_char_hd: "hd (splitJS [c] s) = takeWhile (\<lambda>x. x \<noteq> c) s"
  by (induction s) (auto split: list.splits simp: splitJS_not_Nil)

section \<open>Client address extraction: theorems\<close>

text \<open>
  C9.  \<open>normalizeIP\<close> is a plain prefix test: a string that starts with \<open>::ffff:\<close> loses
  exactly these seven characters, whatever follows them (also a remainder that is no
  address, as in \<open>::ffff:zzzz\<close>), and every other string is returned unchanged.  The
  function is total, so it never fails.
\<close>

theorem normalizeIP_prefix_strip:
  "(prefix ''::ffff:'' s \<longrightarrow> ''::ffff:'' @ normalizeIP s = s \<and> length (normalizeIP s) + 7 = length s)
   \<and> (\<not> prefix ''::ffff:'' s \<longrightarrow> normalizeIP s = s)
   \<and> normalizeIP ''::ffff:zzzz'' = ''zzzz''
   \<and> normalizeIP ''::ffff:10.0.0.5'' = ''10.0.0.5''
   \<and> normalizeIP ''10.0.0.5'' = ''10.0.0.5''"
  by (auto simp: normalizeIP_def prefix_def)

theorem normalizeIP_prefix_strip_witness:
  "prefix ''::ffff:'' ''::ffff:192.168.1.1'' \<and> normalizeIP ''::ffff:192.168.1.1'' = ''192.168.1.1''
   \<and> \<not> prefix ''::ffff:'' ''fe80::1'' \<and> normalizeIP ''fe80::1'' = ''fe80::1''"
  using normalizeIP_prefix_strip [of "''::ffff:192.168.1.1''"]
        normalizeIP_prefix_strip [of "''fe80::1''"]
  by simp

text \<open>
  C7 as stated fails: a real-ip value that is present but empty is not returned; the
  connection address is.
\<close>

theorem extractClientIP_empty_realIP_counterexample:
  "headers emptyRealIPRequest ''x-forwarded-for'' = None
   \<and> headers emptyRealIPRequest ''x-real-ip'' = Some []
   \<and> extractClientIP emptyRealIPRequest = Inr ''10.0.0.1''
   \<and> extractClientIP emptyRealIPRequest \<noteq> Inr []"
  by (simp add: emptyRealIPRequest_def extractClientIP_def rawAddress_def remoteAddressOf_def
      truthy_def js_or_def)

text \<open>
  C7, amended.  The three candidates are taken in strict priority, each one only when it
  is present and not empty: the forwarded value gives its part before the first comma,
  trimmed; else the real-ip value is returned as it is; else the raw connection address is
  returned without the prefix \<open>::ffff:\<close> when it starts with it, and unchanged otherwise;
  with no such candidate the result is \<open>unknown\<close>.  The function always returns a string.
\<close>

theorem extractClientIP_priority:
  "(truthy (headers req ''x-forwarded-for'') \<longrightarrow>
      extractClientIP req =
        Inr (trim (takeWhile (\<lambda>c. c \<noteq> CHR '','') (the (headers req ''x-forwarded-for'')))))
   \<and> (\<not> truthy (headers req ''x-forwarded-for'') \<and> truthy (headers req ''x-real-ip'') \<longrightarrow>
      extractClientIP req = Inr (the (headers req ''x-real-ip'')))
   \<and> (\<not> truthy (headers req ''x-forwarded-for'') \<and> \<not> truthy (headers req ''x-real-ip'')
        \<and> truthy (rawAddress req) \<longrightarrow>
      (\<forall>r. the (rawAddress req) = ''::ffff:'' @ r \<longrightarrow> extractClientIP req = Inr r)
      \<and> (\<not> prefix ''::ffff:'' (the (rawAddress req)) \<longrightarrow>
           extractClientIP req = Inr (the (rawAddress req))))
   \<and> (\<not> truthy (headers req ''x-forwarded-for'') \<and> \<not> truthy (headers req ''x-real-ip'')
        \<and> \<not> truthy (rawAddress req) \<longrightarrow>
      extractClientIP req = Inr ''unknown'')
   \<and> (\<exists>v. extractClientIP req = Inr v)"
proof -
  have hd_split: "\<And>f. (case splitJS '','' f of [] \<Rightarrow> Inl TypeError | p # _ \<Rightarrow> Inr (trim p))
      = Inr (trim (takeWhile (\<lambda>c. c \<noteq> CHR '','') f))"
    using splitJS_char_hd [of "CHR '',''"] splitJS_not_Nil [of "'',''"]
    by (simp split: list.splits) (metis list.sel(1))
  show ?thesis
    by (auto simp: extractClientIP_def Let_def hd_split js_or_def truthy_def prefix_def
        split: option.splits)
qed

theorem extractClientIP_priority_witness:
  "truthy (headers forwardedRequest ''x-forwarded-for'')
   \<and> extractClientIP forwardedRequest = Inr ''10.0.20.21''
   \<and> \<not> truthy (headers realIPRequest ''x-forwarded-for'')
   \<and> truthy (headers realIPRequest ''x-real-ip'')
   \<and> extractClientIP realIPRequest = Inr ''203.0.113.7''
   \<and> rawAddress mappedRequest = Some ''::ffff:192.168.1.1''
   \<and> extractClientIP mappedRequest = Inr ''192.168.1.1''
   \<and> rawAddress socketRequest = Some ''2001:db8::1''
   \<and> extractClientIP socketRequest = Inr ''2001:db8::1''
   \<and> \<not> truthy (rawAddress bareRequest)
   \<and> extractClientIP bareRequest = Inr ''unknown''"
proof -
  have 1: "truthy (headers forwardedRequest ''x-forwarded-for'')"
    "trim (takeWhile (\<lambda>c. c \<noteq> CHR '','') (the (headers forwardedRequest ''x-forwarded-for'')))
      = ''10.0.20.21''"
    by (simp_all add: forwardedRequest_def truthy_def trim_def isWhiteSpace_def)
  have 2: "\<not> truthy (headers realIPRequest ''x-forwarded-for'')"
    "truthy (headers realIPRequest ''x-real-ip'')"
    "the (headers realIPRequest ''x-real-ip'') = ''203.0.113.7''"
    by (simp_all add: realIPRequest_def truthy_def)
  have 3: "\<not> truthy (headers mappedRequest ''x-forwarded-for'')"
    "\<not> truthy (headers mappedRequest ''x-real-ip'')"
    "rawAddress mappedRequest = Some ''::ffff:192.168.1.1''"
    "truthy (rawAddress mappedRequest)"
    "the (rawAddress mappedRequest) = ''::ffff:'' @ ''192.168.1.1''"
    by (simp_all add: mappedRequest_def truthy_def rawAddress_def remoteAddressOf_def js_or_def)
  have 4: "\<not> truthy (headers socketRequest ''x-forwarded-for'')"
    "\<not> truthy (headers socketRequest ''x-real-ip'')"
    "rawAddress socketRequest = Some ''2001:db8::1''"
    "truthy (rawAddress socketRequest)"
    "\<not> prefix ''::ffff:'' (the (rawAddress socketRequest))"
    by (simp_all add: socketRequest_def truthy_def rawAddress_def remoteAddressOf_def js_or_def)
  have 5: "\<not> truthy (headers bareRequest ''x-forwarded-for'')"
    "\<not> truthy (headers bareRequest ''x-real-ip'')"
    "\<not> truthy (rawAddress bareRequest)"
    by (simp_all add: bareRequest_def truthy_def rawAddress_def remoteAddressOf_def js_or_def)
  have a: "extractClientIP forwardedRequest = Inr ''10.0.20.21''"
    using extractClientIP_priority [of forwardedRequest] 1 by simp
  have b: "extractClientIP realIPRequest = Inr ''203.0.113.7''"
    using extractClientIP_priority [of realIPRequest] 2 by simp
  have c: "extractClientIP mappedRequest = Inr ''192.168.1.1''"
    using extractClientIP_priority [of mappedRequest] 3(1,2,4,5) by blast
  have d: "extractClientIP socketRequest = Inr ''2001:db8::1''"
    using extractClientIP_priority [of socketRequest] 4 by simp
  have e: "extractClientIP bareRequest = Inr ''unknown''"
    using extractClientIP_priority [of bareRequest] 5 by simp
  show ?thesis using 1(1) 2(1,2) 3(3) 4(3) 5(3) a b c d e by simp
qed


section \<open>Matching and the language of a pattern\<close>

text \<open>The matcher leaves exactly the rests of the string after a word of the language.\<close>

lemma iter_iff:
  assumes f: "\<And>s t. t \<in> set (f s) \<longleftrightarrow> (\<exists>p\<in>A. s = p @ t)"
  shows "t \<in> set (iter f k s) \<longleftrightarrow> (\<exists>ps. length ps = k \<and> set ps \<subseteq> A \<and> s = concat ps @ t)"
proof (induction k arbitrary: s)
  case 0
  show ?case by auto
next
  case (Suc k)
  show ?case
  proof
    assume "t \<in> set (iter f (Suc k) s)"
    then obtain u where u: "u \<in> set (f s)" "t \<in> set (iter f k u)" by auto
    from u(1) obtain p where p: "p \<in> A" "s = p @ u" using f by blast
    from u(2) obtain ps where ps: "length ps = k" "set ps \<subseteq> A" "u = concat ps @ t"
      using Suc.IH by blast
    show "\<exists>ps. length ps = Suc k \<and> set ps \<subseteq> A \<and> s = concat ps @ t"
      using p ps by (intro exI[of _ "p # ps"]) simp
  next
    assume "\<exists>ps. length ps = Suc k \<and> set ps \<subseteq> A \<and> s = concat ps @ t"
    then obtain ps where ps: "length ps = Suc k" "set ps \<subseteq> A" "s = concat ps @ t" by blast
    then obtain p ps' where eq: "ps = p # ps'" by (cases ps) auto
    have "concat ps' @ t \<in> set (f s)" using f ps eq by auto
    moreover have "t \<in> set (iter f k (concat ps' @ t))" using Suc.IH ps eq by auto
    ultimately show "t \<in> set (iter f (Suc k) s)" by auto
  qed
qed

lemma extra_iff:
  assumes f: "\<And>s t. t \<in> set (f s) \<longleftrightarrow> (\<exists>p\<in>A. s = p @ t)"
  shows "t \<in> set (extra f n s) \<longleftrightarrow>
         (\<exists>qs. length qs \<le> n \<and> set qs \<subseteq> A - {[]} \<and> s = concat qs @ t)"
proof (induction n arbitrary: s)
  case 0
  show ?case by auto
next
  case (Suc n)
  show ?case
  proof
    assume "t \<in> set (extra f (Suc n) s)"
    then consider "t = s" | u where "u \<in> set (f s)" "length u < length s" "t \<in> set (extra f n u)"
      by auto
    then show "\<exists>qs. length qs \<le> Suc n \<and> set qs \<subseteq> A - {[]} \<and> s = concat qs @ t"
    proof cases
      case 1
      then show ?thesis by (intro exI[of _ "[]"]) simp
    next
      case 2
      from 2(1) obtain p where p: "p \<in> A" "s = p @ u" using f by blast
      with 2(2) have "p \<noteq> []" by auto
      from 2(3) obtain qs where qs: "length qs \<le> n" "set qs \<subseteq> A - {[]}" "u = concat qs @ t"
        using Suc.IH by blast
      show ?thesis using p qs \<open>p \<noteq> []\<close> by (intro exI[of _ "p # qs"]) simp
    qed
  next
    assume "\<exists>qs. length qs \<le> Suc n \<and> set qs \<subseteq> A - {[]} \<and> s = concat qs @ t"
    then obtain qs where qs: "length qs \<le> Suc n" "set qs \<subseteq> A - {[]}" "s = concat qs @ t" by blast
    show "t \<in> set (extra f (Suc n) s)"
    proof (cases qs)
      case Nil
      then show ?thesis using qs by simp
    next
      case (Cons p qs')
      have "concat qs' @ t \<in> set (f s)" using f qs Cons by auto
      moreover have "length (concat qs' @ t) < length s" using qs Cons by auto
      moreover have "t \<in> set (extra f n (concat qs' @ t))" using Suc.IH qs Cons by auto
      ultimately show ?thesis by auto
    qed
  qed
qed

lemma length_le_concat:
  "[] \<notin> set qs \<Longrightarrow> length qs \<le> length (concat qs)"
proof (induction qs)
  case Nil
  show ?case by simp
next
  case (Cons a qs)
  then have "a \<noteq> []" "length qs \<le> length (concat qs)" by auto
  then show ?case by (cases a) auto
qed

lemma extra_unbounded_iff:
  assumes f: "\<And>s t. t \<in> set (f s) \<longleftrightarrow> (\<exists>p\<in>A. s = p @ t)"
  shows "t \<in> set (extra f (length s) s) \<longleftrightarrow> (\<exists>qs. set qs \<subseteq> A - {[]} \<and> s = concat qs @ t)"
proof -
  have "length qs \<le> length s" if "set qs \<subseteq> A - {[]}" "s = concat qs @ t" for qs
  proof -
    have "[] \<notin> set qs" using that(1) by auto
    from length_le_concat[OF this] show ?thesis using that(2) by simp
  qed
  then show ?thesis unfolding extra_iff[of f A, OF f] by blast
qed

lemma rmatch_lang: "t \<in> set (rmatch r s) \<longleftrightarrow> (\<exists>p\<in>lang r. s = p @ t)"
proof (induction r arbitrary: s t)
  case (Lit w)
  show ?case by (auto simp: prefix_def)
next
  case (Chars rs)
  show ?case by (cases s) auto
next
  case (Cat a b)
  show ?case
  proof
    assume "t \<in> set (rmatch (Cat a b) s)"
    then obtain u where u: "u \<in> set (rmatch a s)" "t \<in> set (rmatch b u)" by auto
    from u(1) obtain p where p: "p \<in> lang a" "s = p @ u" using Cat.IH(1) by blast
    from u(2) obtain q where q: "q \<in> lang b" "u = q @ t" using Cat.IH(2) by blast
    have "p @ q \<in> lang (Cat a b)" using p(1) q(1) by auto
    moreover have "s = (p @ q) @ t" using p(2) q(2) by simp
    ultimately show "\<exists>p\<in>lang (Cat a b). s = p @ t" by blast
  next
    assume "\<exists>p\<in>lang (Cat a b). s = p @ t"
    then obtain p q where pq: "p \<in> lang a" "q \<in> lang b" "s = (p @ q) @ t" by auto
    then have "q @ t \<in> set (rmatch a s)" using Cat.IH(1) by auto
    moreover have "t \<in> set (rmatch b (q @ t))" using Cat.IH(2) pq by auto
    ultimately show "t \<in> set (rmatch (Cat a b) s)" by auto
  qed
next
  case (Alt a b)
  show ?case using Alt.IH by auto
next
  case (Repeat lo hi r)
  have f: "\<And>s t. t \<in> set (rmatch r s) \<longleftrightarrow> (\<exists>p\<in>lang r. s = p @ t)" using Repeat.IH by blast
  have "t \<in> set (rmatch (Repeat lo hi r) s) \<longleftrightarrow>
        (\<exists>u. u \<in> set (iter (rmatch r) lo s)
           \<and> t \<in> set (extra (rmatch r) (case hi of Some h \<Rightarrow> h - lo | None \<Rightarrow> length u) u))"
    by auto
  also have "\<dots> \<longleftrightarrow> (\<exists>u ps qs. length ps = lo \<and> set ps \<subseteq> lang r \<and> s = concat ps @ u
        \<and> set qs \<subseteq> lang r - {[]} \<and> u = concat qs @ t
        \<and> (case hi of Some h \<Rightarrow> length qs \<le> h - lo | None \<Rightarrow> True))"
  proof (cases hi)
    case None
    show ?thesis unfolding None option.case iter_iff[of "rmatch r" "lang r", OF f]
      extra_unbounded_iff[of "rmatch r" "lang r", OF f] by blast
  next
    case (Some h)
    show ?thesis unfolding Some option.case iter_iff[of "rmatch r" "lang r", OF f]
      extra_iff[of "rmatch r" "lang r", OF f] by blast
  qed
  also have "\<dots> \<longleftrightarrow> (\<exists>p\<in>lang (Repeat lo hi r). s = p @ t)"
  proof
    assume "\<exists>u ps qs. length ps = lo \<and> set ps \<subseteq> lang r \<and> s = concat ps @ u
        \<and> set qs \<subseteq> lang r - {[]} \<and> u = concat qs @ t
        \<and> (case hi of Some h \<Rightarrow> length qs \<le> h - lo | None \<Rightarrow> True)"
    then obtain ps qs where *: "length ps = lo" "set ps \<subseteq> lang r" "set qs \<subseteq> lang r - {[]}"
        "case hi of Some h \<Rightarrow> length qs \<le> h - lo | None \<Rightarrow> True"
        and s: "s = concat ps @ concat qs @ t"
      by blast
    from * have "concat ps @ concat qs \<in> lang (Repeat lo hi r)"
      unfolding lang.simps by blast
    with s show "\<exists>p\<in>lang (Repeat lo hi r). s = p @ t" by auto
  next
    assume "\<exists>p\<in>lang (Repeat lo hi r). s = p @ t"
    then obtain ps qs where *: "length ps = lo" "set ps \<subseteq> lang r" "set qs \<subseteq> lang r - {[]}"
        "case hi of Some h \<Rightarrow> length qs \<le> h - lo | None \<Rightarrow> True"
        and s: "s = (concat ps @ concat qs) @ t"
      unfolding lang.simps by blast
    show "\<exists>u ps qs. length ps = lo \<and> set ps \<subseteq> lang r \<and> s = concat ps @ u
        \<and> set qs \<subseteq> lang r - {[]} \<and> u = concat qs @ t
        \<and> (case hi of Some h \<Rightarrow> length qs \<le> h - lo | None \<Rightarrow> True)"
      using * s by (intro exI[of _ "concat qs @ t"] exI[of _ ps] exI[of _ qs]) simp
  qed
  finally show ?case .
qed

lemma test_lang: "test r s \<longleftrightarrow> s \<in> lang r"
  by (simp add: test_def rmatch_lang)

subsection \<open>Counting a character\<close>

lemma count_list_concat_le:
  "(\<And>p. p \<in> set ps \<Longrightarrow> count_list p c \<le> m) \<Longrightarrow> count_list (concat ps) c \<le> length ps * m"
  by (induction ps) (auto simp: add_mono)

lemma count_list_concat_ge:
  "(\<And>p. p \<in> set ps \<Longrightarrow> m \<le> count_list p c) \<Longrightarrow> length ps * m \<le> count_list (concat ps) c"
  by (induction ps) (auto simp: add_mono)

lemma maxCount_bound:
  "maxCount c r = Some n \<Longrightarrow> p \<in> lang r \<Longrightarrow> count_list p c \<le> n"
proof (induction r arbitrary: n p)
  case (Lit w)
  then show ?case by auto
next
  case (Chars rs)
  then show ?case by auto
next
  case (Cat a b)
  from Cat.prems(1) obtain m k where mk: "maxCount c a = Some m" "maxCount c b = Some k" "n = m + k"
    by (auto split: option.splits)
  from Cat.prems(2) obtain x y where xy: "p = x @ y" "x \<in> lang a" "y \<in> lang b" by auto
  show ?case using Cat.IH(1)[OF mk(1) xy(2)] Cat.IH(2)[OF mk(2) xy(3)] mk(3) xy(1) by simp
next
  case (Alt a b)
  from Alt.prems(1) obtain m k where mk: "maxCount c a = Some m" "maxCount c b = Some k" "n = max m k"
    by (auto split: option.splits)
  show ?case using Alt.prems(2) Alt.IH(1)[OF mk(1)] Alt.IH(2)[OF mk(2)] mk(3) by fastforce
next
  case (Repeat lo hi r)
  from Repeat.prems(1) obtain m where m: "maxCount c r = Some m"
    by (auto split: option.splits)
  from Repeat.prems(2) obtain ps qs where pq: "p = concat ps @ concat qs" "length ps = lo"
      "set ps \<subseteq> lang r" "set qs \<subseteq> lang r - {[]}"
      "case hi of Some h \<Rightarrow> length qs \<le> h - lo | None \<Rightarrow> True"
    by auto
  have each: "\<And>x. x \<in> set (ps @ qs) \<Longrightarrow> count_list x c \<le> m"
    using Repeat.IH[OF m] pq(3,4) by auto
  have le: "count_list p c \<le> length (ps @ qs) * m"
    using count_list_concat_le[of "ps @ qs" c m, OF each] pq(1) by simp
  show ?case
  proof (cases "m = 0")
    case True
    then show ?thesis using le by simp
  next
    case False
    then obtain h where h: "hi = Some h" "n = max lo h * m"
      using Repeat.prems(1) m by (auto split: option.splits)
    have "length (ps @ qs) \<le> max lo h" using pq(2,5) h(1) by auto
    then have "length (ps @ qs) * m \<le> max lo h * m" by (rule mult_le_mono1)
    then show ?thesis using le h(2) by linarith
  qed
qed

lemma minCount_bound:
  "p \<in> lang r \<Longrightarrow> minCount c r \<le> count_list p c"
proof (induction r arbitrary: p)
  case (Lit w)
  then show ?case by auto
next
  case (Chars rs)
  then show ?case by (auto simp: inRanges_def list_all_iff list_ex_iff)
next
  case (Cat a b)
  from Cat.prems obtain x y where xy: "p = x @ y" "x \<in> lang a" "y \<in> lang b" by auto
  show ?case using Cat.IH(1)[OF xy(2)] Cat.IH(2)[OF xy(3)] xy(1) by simp
next
  case (Alt a b)
  show ?case using Alt.prems Alt.IH by fastforce
next
  case (Repeat lo hi r)
  from Repeat.prems obtain ps qs where pq: "p = concat ps @ concat qs" "length ps = lo"
      "set ps \<subseteq> lang r"
    by auto
  have "length ps * minCount c r \<le> count_list (concat ps) c"
    using Repeat.IH pq(3) by (intro count_list_concat_ge) auto
  then show ?case using pq(1,2) by simp
qed

lemma maxCount_ipv6: "maxCount (CHR '':'') ipv6Regex = Some 8" 
  by (simp add: ipv6Regex_def ipv6Alt1_def ipv6Alt2_def ipv6Alt3_def ipv6Alt4_def ipv6Alt5_def ipv6Alt6_def ipv6Alt7_def ipv6Alt8_def ipv6Alt9_def ipv6Alt10_def ipv6Alt11_def ipv6Alt12_def h16c_def ch16_def h16_def hexdigit_def v4tail_def dec8_def digit_def alnum_def inRanges_def)

lemma minCount_ipv6: "minCount (CHR '':'') ipv6Regex = 1" 
  by (simp add: ipv6Regex_def ipv6Alt1_def ipv6Alt2_def ipv6Alt3_def ipv6Alt4_def ipv6Alt5_def ipv6Alt6_def ipv6Alt7_def ipv6Alt8_def ipv6Alt9_def ipv6Alt10_def ipv6Alt11_def ipv6Alt12_def h16c_def ch16_def h16_def hexdigit_def v4tail_def dec8_def digit_def alnum_def inRanges_def)

lemma maxCount_ipv4: "maxCount (CHR '':'') ipv4Regex = Some 0" 
  by (simp add: ipv4Regex_def octet_def digit_def inRanges_def)


section \<open>Splitting and joining\<close>

lemma splitJS_char_free: "c \<notin> set g \<Longrightarrow> splitJS [c] g = [g]"
  by (induction g) auto

lemma splitJS_char_append:
  "c \<notin> set g \<Longrightarrow> splitJS [c] (g @ c # rest) = g # splitJS [c] rest"
  by (induction g) auto

lemma joinJS_Cons: "joinJS sep (x # xs) = (if xs = [] then x else x @ sep @ joinJS sep xs)"
  by (cases xs) auto

lemma splitJS_char_joinJS:
  "gs \<noteq> [] \<Longrightarrow> \<forall>g\<in>set gs. c \<notin> set g \<Longrightarrow> splitJS [c] (joinJS [c] gs) = gs"
proof (induction gs)
  case Nil
  then show ?case by simp
next
  case (Cons g gs)
  show ?case
  proof (cases gs)
    case Nil
    then show ?thesis using Cons.prems by (simp add: splitJS_char_free)
  next
    case (Cons h hs)
    then have "splitJS [c] (joinJS [c] gs) = gs" using Cons.IH Cons.prems by auto
    moreover have "joinJS [c] (g # gs) = g @ c # joinJS [c] gs" using Cons by simp
    ultimately show ?thesis using Cons.prems by (simp add: splitJS_char_append del: joinJS.simps)
  qed
qed

lemma joinJS_splitJS: "joinJS sep (splitJS sep s) = s"
proof (induction sep s rule: splitJS.induct)
  case (1 sep)
  show ?case by simp
next
  case (2 sep c cs)
  show ?case
  proof (cases "sep \<noteq> [] \<and> prefix sep (c # cs)")
    case True
    then obtain r where r: "c # cs = sep @ r" by (auto simp: prefix_def)
    have d: "drop (length sep) (c # cs) = r" using r by simp
    have e: "splitJS sep (c # cs) = [] # splitJS sep r" using True d by simp
    have "joinJS sep ([] # splitJS sep r) = sep @ joinJS sep (splitJS sep r)"
      using splitJS_not_Nil[of sep r] by (simp add: joinJS_Cons)
    also have "\<dots> = sep @ r" using 2(1) True d by simp
    finally have "joinJS sep (splitJS sep (c # cs)) = sep @ r" unfolding e .
    then show ?thesis unfolding r .
  next
    case False
    then have IH: "joinJS sep (splitJS sep cs) = cs" using 2(2) by blast
    obtain p ps where pp: "splitJS sep cs = p # ps"
      using splitJS_not_Nil[of sep cs] by (cases "splitJS sep cs") auto
    have e: "splitJS sep (c # cs) = (c # p) # ps"
      using False pp by (cases "sep = []") auto
    show ?thesis using IH unfolding e pp by (simp add: joinJS_Cons split: if_splits)
  qed
qed

lemma splitJS_char_pieces: "g \<in> set (splitJS [c] s) \<Longrightarrow> c \<notin> set g"
proof (induction s arbitrary: g)
  case Nil
  then show ?case by simp
next
  case (Cons x s)
  obtain p ps where pp: "splitJS [c] s = p # ps"
    using splitJS_not_Nil[of "[c]" s] by (cases "splitJS [c] s") auto
  show ?case using Cons pp by (auto split: if_splits)
qed

lemma length_splitJS_char: "length (splitJS [c] s) = Suc (count_list s c)"
proof (induction s)
  case Nil
  show ?case by simp
next
  case (Cons x s)
  obtain p ps where pp: "splitJS [c] s = p # ps"
    using splitJS_not_Nil[of "[c]" s] by (cases "splitJS [c] s") auto
  show ?case using Cons pp by auto
qed

lemma includesJS_iff: "includesJS sub s \<longleftrightarrow> (\<exists>a b. s = a @ sub @ b)"
proof (induction s)
  case Nil
  show ?case by auto
next
  case (Cons c cs)
  show ?case
  proof
    assume "includesJS sub (c # cs)"
    then consider "prefix sub (c # cs)" | "includesJS sub cs" by auto
    then show "\<exists>a b. c # cs = a @ sub @ b"
    proof cases
      case 1
      then obtain b where "c # cs = sub @ b" by (auto simp: prefix_def)
      then show ?thesis by (intro exI[of _ "[]"] exI[of _ b]) simp
    next
      case 2
      then obtain a b where "cs = a @ sub @ b" using Cons.IH by blast
      then show ?thesis by (intro exI[of _ "c # a"] exI[of _ b]) simp
    qed
  next
    assume "\<exists>a b. c # cs = a @ sub @ b"
    then obtain a b where ab: "c # cs = a @ sub @ b" by blast
    show "includesJS sub (c # cs)"
    proof (cases a)
      case Nil
      then have "prefix sub (c # cs)" using ab by (simp add: prefix_def)
      then show ?thesis by simp
    next
      case (Cons x a')
      then have "cs = a' @ sub @ b" using ab by simp
      then show ?thesis using Cons.IH by auto
    qed
  qed
qed

lemma splitJS_not_included: "\<not> includesJS sep s \<Longrightarrow> splitJS sep s = [s]"
proof (induction s)
  case Nil
  show ?case by simp
next
  case (Cons c cs)
  then show ?case by auto
qed

lemma splitJS_included_length:
  "sep \<noteq> [] \<Longrightarrow> includesJS sep s \<Longrightarrow> 2 \<le> length (splitJS sep s)"
proof (induction sep s rule: splitJS.induct)
  case (1 sep)
  then show ?case by simp
next
  case (2 sep c cs)
  show ?case
  proof (cases "prefix sep (c # cs)")
    case True
    then show ?thesis using 2(3) splitJS_not_Nil[of sep "drop (length sep) (c # cs)"]
      by (cases "splitJS sep (drop (length sep) (c # cs))") (auto simp del: splitJS.simps(2) simp: splitJS.simps(2)[of sep c cs])
  next
    case False
    then have "includesJS sep cs" using 2(4) by simp
    then have "2 \<le> length (splitJS sep cs)" using 2(2,3) False by blast
    then show ?thesis using False by (auto split: list.splits)
  qed
qed

lemma splitJS_dcolon:
  "\<not> includesJS ''::'' (a @ '':'') \<Longrightarrow> splitJS ''::'' (a @ ''::'' @ b) = a # splitJS ''::'' b"
proof (induction a)
  case Nil
  show ?case by simp
next
  case (Cons x a)
  have np: "\<not> prefix ''::'' (x # a @ ''::'' @ b)"
    using Cons.prems by (cases a) auto
  have "splitJS ''::'' (a @ ''::'' @ b) = a # splitJS ''::'' b"
    using Cons by auto
  then show ?case using np by simp
qed

lemma count_list_joinJS_ge:
  "x \<in> set xs \<Longrightarrow> count_list x c \<le> count_list (joinJS sep xs) c"
proof (induction xs)
  case Nil
  then show ?case by simp
next
  case (Cons y ys)
  then show ?case by (cases ys) (auto simp: joinJS_Cons)
qed


section \<open>Expansion never runs out of groups, and the two validators never overlap\<close>

lemma length_groupsOf_le:
  "i < length parts \<Longrightarrow> length (groupsOf parts i) \<le> Suc (count_list (parts ! i) (CHR '':''))"
  by (simp add: groupsOf_def length_splitJS_char)

lemma groups_le_colons:
  assumes "includesJS ''::'' s"
  shows "length (groupsOf (splitJS ''::'' s) 0) + length (groupsOf (splitJS ''::'' s) 1)
         \<le> count_list s (CHR '':'')"
proof -
  have "2 \<le> length (splitJS ''::'' s)"
    using assms by (intro splitJS_included_length) simp_all
  then obtain p0 p1 rest where parts: "splitJS ''::'' s = p0 # p1 # rest"
    by (cases "splitJS ''::'' s"; cases "tl (splitJS ''::'' s)") auto
  have "s = joinJS ''::'' (p0 # p1 # rest)"
    using joinJS_splitJS[of "''::''" s] parts by simp
  then have s: "s = p0 @ ''::'' @ joinJS ''::'' (p1 # rest)" by simp
  have "count_list p1 (CHR '':'') \<le> count_list (joinJS ''::'' (p1 # rest)) (CHR '':'')"
    by (intro count_list_joinJS_ge) simp
  then have "count_list p0 (CHR '':'') + 2 + count_list p1 (CHR '':'') \<le> count_list s (CHR '':'')"
    by (subst s) simp
  moreover have "length (groupsOf (p0 # p1 # rest) 0) \<le> Suc (count_list p0 (CHR '':''))"
    using length_groupsOf_le[of 0 "p0 # p1 # rest"] by simp
  moreover have "length (groupsOf (p0 # p1 # rest) 1) \<le> Suc (count_list p1 (CHR '':''))"
    using length_groupsOf_le[of 1 "p0 # p1 # rest"] by simp
  ultimately show ?thesis unfolding parts by linarith
qed

lemma isValidIPv6_colons:
  assumes "isValidIPv6 s"
  shows "1 \<le> count_list s (CHR '':'')" and "count_list s (CHR '':'') \<le> 8"
proof -
  have s: "s \<in> lang ipv6Regex" using assms by (simp add: isValidIPv6_def test_lang)
  show "1 \<le> count_list s (CHR '':'')"
    using minCount_bound[OF s, of "CHR '':''"] by (simp add: minCount_ipv6)
  show "count_list s (CHR '':'') \<le> 8"
    using maxCount_bound[OF maxCount_ipv6 s] .
qed

lemma expandIPv6_total:
  assumes "count_list s (CHR '':'') \<le> 8"
  shows "\<exists>x. expandIPv6 s = Inr x"
proof (cases "includesJS ''::'' s")
  case True
  from groups_le_colons[OF True] assms
  have "length (groupsOf (splitJS ''::'' s) 0) + length (groupsOf (splitJS ''::'' s) 1) \<le> 8"
    by linarith
  then show ?thesis using True by (simp add: expandIPv6_def Let_def)
next
  case False
  then show ?thesis by (simp add: expandIPv6_def)
qed

lemma reverseIPv6_total:
  "isValidIPv6 s \<Longrightarrow> \<exists>y. reverseIPv6 s = Inr y"
  using expandIPv6_total[OF isValidIPv6_colons(2)] by (fastforce simp: reverseIPv6_def)

lemma maxCount_ipv4_percent: "maxCount (CHR ''%'') ipv4Regex = Some 0"
  by (simp add: ipv4Regex_def octet_def digit_def inRanges_def)

lemma isValidIPv4_no_colon:
  assumes "isValidIPv4 s"
  shows "CHR '':'' \<notin> set s" and "CHR ''%'' \<notin> set s"
proof -
  have s: "s \<in> lang ipv4Regex" using assms by (simp add: isValidIPv4_def test_lang)
  show "CHR '':'' \<notin> set s"
    using maxCount_bound[OF maxCount_ipv4 s] by (simp add: count_list_0_iff)
  show "CHR ''%'' \<notin> set s"
    using maxCount_bound[OF maxCount_ipv4_percent s] by (simp add: count_list_0_iff)
qed

lemma isValidIPv6_has_colon: "isValidIPv6 s \<Longrightarrow> CHR '':'' \<in> set s"
  using isValidIPv6_colons(1)[of s] count_list_0_iff[of s "CHR '':''"] by force

text \<open>
  C10.  No string is accepted by both validators: a string the IPv4 pattern accepts has no
  colon and no percent sign, and every string the IPv6 pattern accepts has a colon.  So
  \<open>reverseIP\<close>, which tries IPv4 first, reverses every valid IPv6 string as IPv6.
\<close>

theorem ipv4_ipv6_disjoint:
  "\<not> (isValidIPv4 s \<and> isValidIPv6 s)
   \<and> (isValidIPv4 s \<longrightarrow> CHR '':'' \<notin> set s \<and> CHR ''%'' \<notin> set s)
   \<and> (isValidIPv6 s \<longrightarrow> CHR '':'' \<in> set s)
   \<and> (isValidIPv6 s \<longrightarrow> reverseIP s = reverseIPv6 s)"
proof -
  have d: "\<not> (isValidIPv4 s \<and> isValidIPv6 s)"
    using isValidIPv4_no_colon(1)[of s] isValidIPv6_has_colon[of s] by blast
  then have "isValidIPv6 s \<longrightarrow> reverseIP s = reverseIPv6 s"
    by (auto simp: reverseIP_def)
  with d show ?thesis
    using isValidIPv4_no_colon[of s] isValidIPv6_has_colon[of s] by blast
qed

theorem ipv4_ipv6_disjoint_witness:
  "isValidIPv6 ''::1'' \<and> \<not> isValidIPv4 ''::1'' \<and> reverseIP ''::1'' = reverseIPv6 ''::1''
   \<and> isValidIPv4 ''192.168.6.5'' \<and> \<not> isValidIPv6 ''192.168.6.5''"
proof -
  have a: "isValidIPv6 ''::1''" by code_simp
  have b: "isValidIPv4 ''192.168.6.5''" by code_simp
  show ?thesis
    using a b ipv4_ipv6_disjoint[of "''::1''"] ipv4_ipv6_disjoint[of "''192.168.6.5''"] by blast
qed

text \<open>
  C1.  \<open>reverseIP\<close> throws the invalid-address error exactly when the string is neither a
  valid IPv4 nor a valid IPv6 string, where \<open>isValidIP\<close> is the disjunction of the two
  validators; it tests validity itself, for every string.  Otherwise it is \<open>reverseIPv4\<close>
  when the string is valid IPv4 and \<open>reverseIPv6\<close> when it is valid IPv6 only, and it
  returns a string.
\<close>

theorem reverseIP_dispatch:
  "((\<exists>m. reverseIP s = Inl (InvalidAddress m)) \<longleftrightarrow> \<not> isValidIP s)
   \<and> (isValidIP s \<longleftrightarrow> isValidIPv4 s \<or> isValidIPv6 s)
   \<and> (isValidIPv4 s \<longrightarrow> reverseIP s = reverseIPv4 s)
   \<and> (\<not> isValidIPv4 s \<and> isValidIPv6 s \<longrightarrow> reverseIP s = reverseIPv6 s)
   \<and> (isValidIP s \<longrightarrow> (\<exists>y. reverseIP s = Inr y))"
proof -
  have v4: "isValidIPv4 s \<Longrightarrow> \<exists>y. reverseIP s = Inr y"
    by (simp add: reverseIP_def reverseIPv4_def)
  have v6: "\<not> isValidIPv4 s \<Longrightarrow> isValidIPv6 s \<Longrightarrow> \<exists>y. reverseIP s = Inr y"
    using reverseIPv6_total[of s] by (simp add: reverseIP_def)
  have ok: "isValidIP s \<Longrightarrow> \<exists>y. reverseIP s = Inr y"
    using v4 v6 by (auto simp: isValidIP_def)
  have bad: "\<not> isValidIP s \<Longrightarrow> \<exists>m. reverseIP s = Inl (InvalidAddress m)"
    by (simp add: reverseIP_def isValidIP_def)
  have "(\<exists>m. reverseIP s = Inl (InvalidAddress m)) \<longleftrightarrow> \<not> isValidIP s"
    using ok bad by fastforce
  then show ?thesis using ok by (simp add: reverseIP_def isValidIP_def)
qed

theorem reverseIP_dispatch_witness:
  "\<not> isValidIP ''not-an-ip'' \<and> (\<exists>m. reverseIP ''not-an-ip'' = Inl (InvalidAddress m))
   \<and> isValidIPv4 ''192.168.6.5'' \<and> reverseIP ''192.168.6.5'' = reverseIPv4 ''192.168.6.5''
   \<and> \<not> isValidIPv4 ''::1'' \<and> isValidIPv6 ''::1'' \<and> reverseIP ''::1'' = reverseIPv6 ''::1''"
proof -
  have a: "\<not> isValidIP ''not-an-ip''" by code_simp
  have b: "isValidIPv4 ''192.168.6.5''" by code_simp
  have c: "\<not> isValidIPv4 ''::1''" "isValidIPv6 ''::1''" by code_simp+
  show ?thesis
    using a b c reverseIP_dispatch[of "''not-an-ip''"] reverseIP_dispatch[of "''192.168.6.5''"]
      reverseIP_dispatch[of "''::1''"]
    by blast
qed


section \<open>What the IPv4 pattern accepts\<close>

subsection \<open>Characters\<close>

lemma char_eq_code: "(c = d) = (of_char c = (of_char d :: nat))"
  by (simp add: of_char_eq_iff)

lemma inRanges_single [simp]: "inRanges [(a, b)] c \<longleftrightarrow> a \<le> c \<and> c \<le> b"
  by (simp add: inRanges_def)

lemma inRanges_Nil [simp]: "\<not> inRanges [] c"
  by (simp add: inRanges_def)

lemma inRanges_Cons: "inRanges ((a, b) # rs) c \<longleftrightarrow> (a \<le> c \<and> c \<le> b) \<or> inRanges rs c"
  by (simp add: inRanges_def)

lemma isDigit_code: "isDigit c \<longleftrightarrow> 48 \<le> (of_char c :: nat) \<and> (of_char c :: nat) \<le> 57"
  by (simp add: isDigit_def less_eq_char_def)

lemma isHexDigit_not_sep:
  "isHexDigit c \<Longrightarrow> c \<noteq> CHR '':'' \<and> c \<noteq> CHR ''.'' \<and> c \<noteq> CHR ''%''"
  by (auto simp: isHexDigit_def isDigit_def less_eq_char_def)

lemma isDigit_not_sep:
  "isDigit c \<Longrightarrow> c \<noteq> CHR '':'' \<and> c \<noteq> CHR ''.'' \<and> c \<noteq> CHR ''%''"
  by (auto simp: isDigit_def less_eq_char_def)

lemma isAlnum_not_sep:
  "isAlnum c \<Longrightarrow> c \<noteq> CHR '':'' \<and> c \<noteq> CHR ''.'' \<and> c \<noteq> CHR ''%''"
  by (auto simp: isAlnum_def isDigit_def less_eq_char_def)

subsection \<open>Quantifiers over a body that consumes something\<close>

declare lang.simps(5) [simp del]

lemma lang_Repeat_bounded:
  assumes "[] \<notin> lang r" "lo \<le> h"
  shows "lang (Repeat lo (Some h) r) =
         {concat ps | ps. lo \<le> length ps \<and> length ps \<le> h \<and> set ps \<subseteq> lang r}"
proof (intro set_eqI iffI)
  fix x
  assume "x \<in> lang (Repeat lo (Some h) r)"
  then obtain ps qs where *: "x = concat ps @ concat qs" "length ps = lo" "set ps \<subseteq> lang r"
      "set qs \<subseteq> lang r - {[]}" "length qs \<le> h - lo"
    by (auto simp: lang.simps(5))
  show "x \<in> {concat ps | ps. lo \<le> length ps \<and> length ps \<le> h \<and> set ps \<subseteq> lang r}"
    using * assms(2) by (intro CollectI exI[of _ "ps @ qs"]) auto
next
  fix x
  assume "x \<in> {concat ps | ps. lo \<le> length ps \<and> length ps \<le> h \<and> set ps \<subseteq> lang r}"
  then obtain ps where *: "x = concat ps" "lo \<le> length ps" "length ps \<le> h" "set ps \<subseteq> lang r"
    by auto
  have "concat (take lo ps @ drop lo ps) = concat (take lo ps) @ concat (drop lo ps)"
    by (rule concat_append)
  then have "x = concat (take lo ps) @ concat (drop lo ps)"
    using *(1) by simp
  moreover have "length (take lo ps) = lo" using *(2) by simp
  moreover have "set (take lo ps) \<subseteq> lang r"
    using *(4) set_take_subset[of lo ps] by blast
  moreover have "set (drop lo ps) \<subseteq> lang r - {[]}"
    using *(4) assms(1) set_drop_subset[of lo ps] by blast
  moreover have "length (drop lo ps) \<le> h - lo" using *(3) by simp
  ultimately show "x \<in> lang (Repeat lo (Some h) r)"
    unfolding lang.simps option.case by blast
qed

lemma lang_optional:
  assumes "[] \<notin> lang r"
  shows "lang (Repeat 0 (Some 1) r) = insert [] (lang r)"
proof -
  have "{concat ps | ps. length ps \<le> 1 \<and> set ps \<subseteq> lang r} = insert [] (lang r)"
  proof (intro set_eqI iffI)
    fix x
    assume "x \<in> {concat ps | ps. length ps \<le> 1 \<and> set ps \<subseteq> lang r}"
    then obtain ps where "x = concat ps" "length ps \<le> 1" "set ps \<subseteq> lang r" by auto
    then show "x \<in> insert [] (lang r)" by (cases ps) auto
  next
    fix x
    assume "x \<in> insert [] (lang r)"
    then consider "x = []" | "x \<in> lang r" by auto
    then show "x \<in> {concat ps | ps. length ps \<le> 1 \<and> set ps \<subseteq> lang r}"
    proof cases
      case 1
      then show ?thesis by (intro CollectI exI[of _ "[]"]) simp
    next
      case 2
      then show ?thesis by (intro CollectI exI[of _ "[x]"]) simp
    qed
  qed
  then show ?thesis using lang_Repeat_bounded[OF assms, of 0 1] by simp
qed

subsection \<open>The IPv4 pattern\<close>

lemma lang_digit: "lang digit = {[c] | c. isDigit c}"
  by (simp add: digit_def isDigit_def)

lemma decVal_simps:
  "decVal [a] = of_char a - 48"
  "decVal [a, b] = 10 * (of_char a - 48) + (of_char b - 48)"
  "decVal [a, b, c] = 10 * (10 * (of_char a - 48) + (of_char b - 48)) + (of_char c - 48)"
  by (simp_all add: decVal_def)

lemma lang_CatI: "p \<in> lang a \<Longrightarrow> q \<in> lang b \<Longrightarrow> p @ q \<in> lang (Cat a b)"
  by auto

lemma lang_Cat_iff: "x \<in> lang (Cat a b) \<longleftrightarrow> (\<exists>p q. x = p @ q \<and> p \<in> lang a \<and> q \<in> lang b)"
  by auto

lemma lang_opt01:
  "lang (Repeat 0 (Some 1) (Chars [(CHR ''0'', CHR ''0''), (CHR ''1'', CHR ''1'')])) = {[], ''0'', ''1''}"
  by (subst lang_optional) (auto simp: inRanges_Cons)

lemma lang_opt_digit: "lang (Repeat 0 (Some 1) digit) = insert [] {[d] | d. isDigit d}"
  by (subst lang_optional) (auto simp: lang_digit)

lemma lang_octet_elim:
  assumes "x \<in> lang octet"
  obtains (hi) c where "x = [CHR ''2'', CHR ''5'', c]" "CHR ''0'' \<le> c" "c \<le> CHR ''5''"
  | (mid) c d where "x = [CHR ''2'', c, d]" "CHR ''0'' \<le> c" "c \<le> CHR ''4''" "isDigit d"
  | (lo) p c q where "x = p @ [c] @ q" "p = [] \<or> p = ''0'' \<or> p = ''1''" "isDigit c"
      "q = [] \<or> (\<exists>d. q = [d] \<and> isDigit d)"
proof -
  from assms consider
      "x \<in> lang (Cat (Lit ''25'') (Chars [(CHR ''0'', CHR ''5'')]))"
    | "x \<in> lang (Cat (Lit ''2'') (Cat (Chars [(CHR ''0'', CHR ''4'')]) digit))"
    | "x \<in> lang (Cat (Repeat 0 (Some 1) (Chars [(CHR ''0'', CHR ''0''), (CHR ''1'', CHR ''1'')]))
                     (Cat digit (Repeat 0 (Some 1) digit)))"
    unfolding octet_def lang.simps(4) by blast
  then show thesis
  proof cases
    case 1
    then obtain c where "x = [CHR ''2'', CHR ''5'', c]" "CHR ''0'' \<le> c" "c \<le> CHR ''5''"
      by auto
    then show thesis by (rule hi)
  next
    case 2
    then obtain c d where "x = [CHR ''2'', c, d]" "CHR ''0'' \<le> c" "c \<le> CHR ''4''" "isDigit d"
      by (auto simp: lang_digit)
    then show thesis by (rule mid)
  next
    case 3
    then obtain p r where pr: "x = p @ r" "p \<in> {[], ''0'', ''1''}"
        "r \<in> lang (Cat digit (Repeat 0 (Some 1) digit))"
      unfolding lang_Cat_iff[of x] lang_opt01 by blast
    from pr(3) obtain c q where cq: "r = [c] @ q" "isDigit c" "q \<in> insert [] {[d] | d. isDigit d}"
      unfolding lang_Cat_iff[of r] lang_opt_digit lang_digit by blast
    show thesis
      using pr(1,2) cq by (intro lo[of p c q]) auto
  qed
qed

lemma lang_octet: "x \<in> lang octet \<longleftrightarrow> decOctet x"
proof
  assume "x \<in> lang octet"
  then show "decOctet x"
  proof (cases rule: lang_octet_elim)
    case (hi c)
    then show ?thesis
      by (simp add: decOctet_def decVal_simps isDigit_code less_eq_char_def; arith)
  next
    case (mid c d)
    then show ?thesis
      by (simp add: decOctet_def decVal_simps isDigit_code less_eq_char_def; arith)
  next
    case (lo p c q)
    from lo(2,4) consider "p = []" "q = []" | d where "p = []" "q = [d]" "isDigit d"
      | "p = ''0''" "q = []" | d where "p = ''0''" "q = [d]" "isDigit d"
      | "p = ''1''" "q = []" | d where "p = ''1''" "q = [d]" "isDigit d"
      by blast
    then show ?thesis
      using lo(1,3)
      by cases (simp_all add: decOctet_def decVal_simps isDigit_code less_eq_char_def; arith)+
  qed
next
  assume d: "decOctet x"
  then consider a where "x = [a]" | a b where "x = [a, b]" | a b c where "x = [a, b, c]"
    unfolding decOctet_def
    by (cases x; cases "tl x"; cases "tl (tl x)"; cases "tl (tl (tl x))") auto
  then show "x \<in> lang octet"
  proof cases
    case 1
    then have "isDigit a" using d by (simp add: decOctet_def)
    then have "[] @ [a] @ [] \<in> lang (Cat (Repeat 0 (Some 1) (Chars [(CHR ''0'', CHR ''0''), (CHR ''1'', CHR ''1'')]))
                     (Cat digit (Repeat 0 (Some 1) digit)))"
      by (intro lang_CatI; (unfold lang_opt01 lang_opt_digit lang_digit)?; simp)
    then show ?thesis unfolding 1 octet_def lang.simps(4) by simp
  next
    case 2
    then have "isDigit a" "isDigit b" using d by (simp_all add: decOctet_def)
    then have "[] @ [a] @ [b] \<in> lang (Cat (Repeat 0 (Some 1) (Chars [(CHR ''0'', CHR ''0''), (CHR ''1'', CHR ''1'')]))
                     (Cat digit (Repeat 0 (Some 1) digit)))"
      by (intro lang_CatI; (unfold lang_opt01 lang_opt_digit lang_digit)?; simp)
    then show ?thesis unfolding 2 octet_def lang.simps(4) by simp
  next
    case 3
    then have dg: "isDigit a" "isDigit b" "isDigit c" and v: "decVal [a, b, c] \<le> 255"
      using d by (simp_all add: decOctet_def)
    have a2: "of_char a \<le> (50 :: nat)"
      using v dg unfolding decVal_simps isDigit_code by presburger
    have "of_char a = (48 :: nat) \<or> of_char a = (49 :: nat) \<or> of_char a = (50 :: nat)"
      using a2 dg(1) unfolding isDigit_code by presburger
    then consider "a = CHR ''0'' \<or> a = CHR ''1''" | "a = CHR ''2''"
      by (auto simp: char_eq_code)
    then show ?thesis
    proof cases
      case 1
      then have "[a] @ [b] @ [c] \<in> lang (Cat (Repeat 0 (Some 1) (Chars [(CHR ''0'', CHR ''0''), (CHR ''1'', CHR ''1'')]))
                     (Cat digit (Repeat 0 (Some 1) digit)))"
        using dg by (intro lang_CatI; (unfold lang_opt01 lang_opt_digit lang_digit)?; auto)
      then show ?thesis unfolding \<open>x = [a, b, c]\<close> octet_def lang.simps(4) by simp
    next
      case 2
      have a50: "of_char a = (50 :: nat)" using 2 by simp
      have b5: "of_char b \<le> (53 :: nat)"
        using v dg a50 unfolding decVal_simps isDigit_code by presburger
      show ?thesis
      proof (cases "b = CHR ''5''")
        case True
        have "of_char b = (53 :: nat)" using True by simp
        then have "of_char c \<le> (53 :: nat)"
          using v dg a50 unfolding decVal_simps isDigit_code by presburger
        then have "''25'' @ [c] \<in> lang (Cat (Lit ''25'') (Chars [(CHR ''0'', CHR ''5'')]))"
          using dg(3) by (intro lang_CatI) (simp_all add: isDigit_code less_eq_char_def)
        then show ?thesis unfolding \<open>x = [a, b, c]\<close> 2 True octet_def lang.simps(4) by simp
      next
        case False
        then have "of_char b \<noteq> (53 :: nat)" by (simp add: char_eq_code)
        then have "of_char b \<le> (52 :: nat)" using b5 by presburger
        then have "''2'' @ [b] @ [c] \<in> lang (Cat (Lit ''2'') (Cat (Chars [(CHR ''0'', CHR ''4'')]) digit))"
          using dg by (intro lang_CatI; (unfold lang_digit)?; simp add: isDigit_code less_eq_char_def)
        then show ?thesis unfolding \<open>x = [a, b, c]\<close> 2 octet_def lang.simps(4) by simp
      qed
    qed
  qed
qed

lemma isValidIPv4_iff:
  "isValidIPv4 s \<longleftrightarrow>
     (\<exists>a b c d. s = a @ ''.'' @ b @ ''.'' @ c @ ''.'' @ d
        \<and> decOctet a \<and> decOctet b \<and> decOctet c \<and> decOctet d)"
proof -
  have step: "x \<in> lang (Cat octet (Cat (Lit ''.'') r)) \<longleftrightarrow>
      (\<exists>a q. x = a @ ''.'' @ q \<and> decOctet a \<and> q \<in> lang r)" for x r
  proof
    assume "x \<in> lang (Cat octet (Cat (Lit ''.'') r))"
    then obtain a t where a: "x = a @ t" "a \<in> lang octet" "t \<in> lang (Cat (Lit ''.'') r)"
      unfolding lang_Cat_iff[of x] by blast
    from a(3) obtain q where "t = ''.'' @ q" "q \<in> lang r"
      unfolding lang_Cat_iff[of t] by auto
    with a show "\<exists>a q. x = a @ ''.'' @ q \<and> decOctet a \<and> q \<in> lang r"
      using lang_octet by blast
  next
    assume "\<exists>a q. x = a @ ''.'' @ q \<and> decOctet a \<and> q \<in> lang r"
    then obtain a q where *: "x = a @ ''.'' @ q" "decOctet a" "q \<in> lang r" by blast
    have "a @ ''.'' @ q \<in> lang (Cat octet (Cat (Lit ''.'') r))"
      using * by (intro lang_CatI) (simp_all add: lang_octet)
    then show "x \<in> lang (Cat octet (Cat (Lit ''.'') r))" using *(1) by simp
  qed
  have "s \<in> lang ipv4Regex \<longleftrightarrow>
     (\<exists>a q. s = a @ ''.'' @ q \<and> decOctet a \<and>
        (\<exists>b q'. q = b @ ''.'' @ q' \<and> decOctet b \<and>
           (\<exists>c d. q' = c @ ''.'' @ d \<and> decOctet c \<and> decOctet d)))"
    unfolding ipv4Regex_def step lang_octet ..
  also have "\<dots> \<longleftrightarrow> (\<exists>a b c d. s = a @ ''.'' @ b @ ''.'' @ c @ ''.'' @ d
        \<and> decOctet a \<and> decOctet b \<and> decOctet c \<and> decOctet d)" (is "?L \<longleftrightarrow> ?R")
  proof
    assume ?L
    then obtain a q where 1: "s = a @ ''.'' @ q" "decOctet a"
        and "\<exists>b q'. q = b @ ''.'' @ q' \<and> decOctet b \<and>
           (\<exists>c d. q' = c @ ''.'' @ d \<and> decOctet c \<and> decOctet d)"
      by blast
    then obtain b q' where 2: "q = b @ ''.'' @ q'" "decOctet b"
        and "\<exists>c d. q' = c @ ''.'' @ d \<and> decOctet c \<and> decOctet d"
      by blast
    then obtain c d where 3: "q' = c @ ''.'' @ d" "decOctet c" "decOctet d"
      by blast
    show ?R
      unfolding 1(1) 2(1) 3(1) using 1(2) 2(2) 3(2,3) by blast
  next
    assume ?R
    then obtain a b c d where *: "s = a @ ''.'' @ b @ ''.'' @ c @ ''.'' @ d"
        "decOctet a" "decOctet b" "decOctet c" "decOctet d"
      by blast
    show ?L
      unfolding *(1) using *(2-5) by blast
  qed
  finally show ?thesis by (simp add: isValidIPv4_def test_lang)
qed

lemma decOctet_no_dot: "decOctet x \<Longrightarrow> CHR ''.'' \<notin> set x"
  using isDigit_not_sep by (auto simp: decOctet_def list_all_iff)

lemma splitJS_dotted:
  assumes "CHR ''.'' \<notin> set a" "CHR ''.'' \<notin> set b" "CHR ''.'' \<notin> set c" "CHR ''.'' \<notin> set d"
  shows "splitJS ''.'' (a @ ''.'' @ b @ ''.'' @ c @ ''.'' @ d) = [a, b, c, d]"
  using assms splitJS_char_append[of "CHR ''.''"] splitJS_char_free[of "CHR ''.''" d]
  by simp

lemma reverseIPv4_dotted:
  assumes "decOctet a" "decOctet b" "decOctet c" "decOctet d"
  shows "reverseIPv4 (a @ ''.'' @ b @ ''.'' @ c @ ''.'' @ d) = Inr (d @ ''.'' @ c @ ''.'' @ b @ ''.'' @ a)"
proof -
  have "isValidIPv4 (a @ ''.'' @ b @ ''.'' @ c @ ''.'' @ d)"
    unfolding isValidIPv4_iff using assms by blast
  moreover have "splitJS ''.'' (a @ ''.'' @ b @ ''.'' @ c @ ''.'' @ d) = [a, b, c, d]"
    using assms by (intro splitJS_dotted decOctet_no_dot)
  ultimately show ?thesis by (simp add: reverseIPv4_def)
qed


text \<open>
  C5.  \<open>isValidIPv4\<close> accepts exactly the strings made of four octets with a dot between
  neighbours and nothing else.  An octet is what the alternation
  \<open>25[0-5]|2[0-4][0-9]|[01]?[0-9][0-9]?\<close> matches, which is exactly: one to three decimal
  digits with a value of at most 255.  So leading zeros as in \<open>01\<close> and \<open>001\<close> are
  accepted, and \<open>256.1.1.1\<close> is not a valid address.
\<close>

theorem isValidIPv4_four_octets:
  "(isValidIPv4 s \<longleftrightarrow>
      (\<exists>a b c d. s = a @ ''.'' @ b @ ''.'' @ c @ ''.'' @ d
         \<and> decOctet a \<and> decOctet b \<and> decOctet c \<and> decOctet d))
   \<and> (test octet x \<longleftrightarrow> decOctet x)
   \<and> test octet ''01'' \<and> test octet ''001'' \<and> isValidIPv4 ''01.002.3.4''
   \<and> \<not> isValidIP ''256.1.1.1''"
proof -
  have a: "test octet ''01''" "test octet ''001''" by code_simp+
  have b: "isValidIPv4 ''01.002.3.4''" by code_simp
  have c: "\<not> isValidIP ''256.1.1.1''" by code_simp
  show ?thesis using a b c isValidIPv4_iff[of s] by (simp add: test_lang lang_octet)
qed

theorem isValidIPv4_four_octets_witness:
  "isValidIPv4 ''192.168.6.5''
   \<and> (\<exists>a b c d. ''192.168.6.5'' = a @ ''.'' @ b @ ''.'' @ c @ ''.'' @ d
         \<and> decOctet a \<and> decOctet b \<and> decOctet c \<and> decOctet d)
   \<and> test octet ''255'' \<and> decOctet ''255''"
proof -
  have a: "isValidIPv4 ''192.168.6.5''" by code_simp
  have b: "test octet ''255''" by code_simp
  show ?thesis
    using a b isValidIPv4_four_octets[of "''192.168.6.5''" "''255''"] by blast
qed

text \<open>
  C2.  For octets \<open>a\<close>, \<open>b\<close>, \<open>c\<close>, \<open>d\<close> (one to three digits, value at most 255) the string
  \<open>a.b.c.d\<close> is valid and \<open>reverseIPv4\<close> returns \<open>d.c.b.a\<close>, each octet with its digits
  unchanged; every valid IPv4 string is of this form, and splitting it at the dots gives
  these four octets.  A string that is not valid IPv4 gives the invalid-address error.
\<close>

theorem reverseIPv4_octets:
  "(decOctet a \<and> decOctet b \<and> decOctet c \<and> decOctet d \<longrightarrow>
      isValidIPv4 (a @ ''.'' @ b @ ''.'' @ c @ ''.'' @ d)
      \<and> reverseIPv4 (a @ ''.'' @ b @ ''.'' @ c @ ''.'' @ d)
          = Inr (d @ ''.'' @ c @ ''.'' @ b @ ''.'' @ a))
   \<and> (isValidIPv4 s \<longrightarrow>
        (\<exists>a b c d. decOctet a \<and> decOctet b \<and> decOctet c \<and> decOctet d
           \<and> s = a @ ''.'' @ b @ ''.'' @ c @ ''.'' @ d
           \<and> splitJS ''.'' s = [a, b, c, d]
           \<and> reverseIPv4 s = Inr (d @ ''.'' @ c @ ''.'' @ b @ ''.'' @ a)))
   \<and> (\<not> isValidIPv4 s \<longrightarrow> (\<exists>m. reverseIPv4 s = Inl (InvalidAddress m)))
   \<and> reverseIPv4 ''192.168.6.5'' = Inr ''5.6.168.192''
   \<and> reverseIPv4 ''01.002.3.4'' = Inr ''4.3.002.01''"
proof -
  have ex: "reverseIPv4 ''192.168.6.5'' = Inr ''5.6.168.192''"
    "reverseIPv4 ''01.002.3.4'' = Inr ''4.3.002.01''"
    by code_simp+
  have fwd: "decOctet a \<and> decOctet b \<and> decOctet c \<and> decOctet d \<longrightarrow>
      isValidIPv4 (a @ ''.'' @ b @ ''.'' @ c @ ''.'' @ d)
      \<and> reverseIPv4 (a @ ''.'' @ b @ ''.'' @ c @ ''.'' @ d)
          = Inr (d @ ''.'' @ c @ ''.'' @ b @ ''.'' @ a)"
    using reverseIPv4_dotted[of a b c d] isValidIPv4_iff[of "a @ ''.'' @ b @ ''.'' @ c @ ''.'' @ d"]
    by blast
  have valid: "isValidIPv4 s \<longrightarrow>
        (\<exists>a b c d. decOctet a \<and> decOctet b \<and> decOctet c \<and> decOctet d
           \<and> s = a @ ''.'' @ b @ ''.'' @ c @ ''.'' @ d
           \<and> splitJS ''.'' s = [a, b, c, d]
           \<and> reverseIPv4 s = Inr (d @ ''.'' @ c @ ''.'' @ b @ ''.'' @ a))"
  proof
    assume "isValidIPv4 s"
    then obtain a b c d where *: "s = a @ ''.'' @ b @ ''.'' @ c @ ''.'' @ d"
        "decOctet a" "decOctet b" "decOctet c" "decOctet d"
      unfolding isValidIPv4_iff by blast
    have "splitJS ''.'' s = [a, b, c, d]"
      unfolding *(1) using *(2-5) by (intro splitJS_dotted decOctet_no_dot)
    moreover have "reverseIPv4 s = Inr (d @ ''.'' @ c @ ''.'' @ b @ ''.'' @ a)"
      unfolding *(1) using *(2-5) by (rule reverseIPv4_dotted)
    ultimately show "\<exists>a b c d. decOctet a \<and> decOctet b \<and> decOctet c \<and> decOctet d
           \<and> s = a @ ''.'' @ b @ ''.'' @ c @ ''.'' @ d
           \<and> splitJS ''.'' s = [a, b, c, d]
           \<and> reverseIPv4 s = Inr (d @ ''.'' @ c @ ''.'' @ b @ ''.'' @ a)"
      using * by blast
  qed
  have bad: "\<not> isValidIPv4 s \<longrightarrow> (\<exists>m. reverseIPv4 s = Inl (InvalidAddress m))"
    by (simp add: reverseIPv4_def)
  show ?thesis using ex fwd valid bad by blast
qed

theorem reverseIPv4_octets_witness:
  "decOctet ''10'' \<and> decOctet ''0'' \<and> decOctet ''020'' \<and> decOctet ''255''
   \<and> reverseIPv4 ''10.0.020.255'' = Inr ''255.020.0.10''
   \<and> isValidIPv4 ''10.0.020.255''
   \<and> splitJS ''.'' ''10.0.020.255'' = [''10'', ''0'', ''020'', ''255'']
   \<and> \<not> isValidIPv4 ''1.2.3'' \<and> (\<exists>m. reverseIPv4 ''1.2.3'' = Inl (InvalidAddress m))"
proof -
  have a: "decOctet ''10''" "decOctet ''0''" "decOctet ''020''" "decOctet ''255''"
    by code_simp+
  have b: "\<not> isValidIPv4 ''1.2.3''" by code_simp
  have c: "splitJS ''.'' ''10.0.020.255'' = [''10'', ''0'', ''020'', ''255'']" by code_simp
  have d: "isValidIPv4 ''10.0.020.255''
      \<and> reverseIPv4 ''10.0.020.255'' = Inr ''255.020.0.10''"
    using a reverseIPv4_octets[of "''10''" "''0''" "''020''" "''255''" "''1.2.3''"] by simp
  show ?thesis
    using a b c d reverseIPv4_octets[of "''10''" "''0''" "''020''" "''255''" "''1.2.3''"]
    by blast
qed


section \<open>What the IPv6 pattern accepts\<close>

subsection \<open>Lists of pieces\<close>

lemma pieces_image:
  "set ps \<subseteq> f ` A \<longleftrightarrow> (\<exists>gs. ps = map f gs \<and> set gs \<subseteq> A)"
proof
  show "set ps \<subseteq> f ` A \<Longrightarrow> \<exists>gs. ps = map f gs \<and> set gs \<subseteq> A"
  proof (induction ps)
    case Nil
    show ?case by simp
  next
    case (Cons p ps)
    then obtain gs where gs: "ps = map f gs" "set gs \<subseteq> A" by auto
    from Cons.prems obtain g where g: "p = f g" "g \<in> A" by auto
    show ?case using gs g by (intro exI[of _ "g # gs"]) simp
  qed
next
  show "\<exists>gs. ps = map f gs \<and> set gs \<subseteq> A \<Longrightarrow> set ps \<subseteq> f ` A" by fastforce
qed

lemma concat_pieces:
  "{concat ps | ps. P (length ps) \<and> set ps \<subseteq> f ` A}
   = {concat (map f gs) | gs. P (length gs) \<and> set gs \<subseteq> A}"
proof (intro set_eqI iffI)
  fix x
  assume "x \<in> {concat ps | ps. P (length ps) \<and> set ps \<subseteq> f ` A}"
  then obtain ps where ps: "x = concat ps" "P (length ps)" "set ps \<subseteq> f ` A" by blast
  from ps(3) obtain gs where gs: "ps = map f gs" "set gs \<subseteq> A"
    unfolding pieces_image by blast
  have "x = concat (map f gs)" "P (length gs)" using ps(1,2) gs(1) by simp_all
  with gs(2) show "x \<in> {concat (map f gs) | gs. P (length gs) \<and> set gs \<subseteq> A}" by blast
next
  fix x
  assume "x \<in> {concat (map f gs) | gs. P (length gs) \<and> set gs \<subseteq> A}"
  then obtain gs where gs: "x = concat (map f gs)" "P (length gs)" "set gs \<subseteq> A" by blast
  have "P (length (map f gs))" using gs(2) by simp
  moreover have "set (map f gs) \<subseteq> f ` A" using gs(3) by auto
  ultimately show "x \<in> {concat ps | ps. P (length ps) \<and> set ps \<subseteq> f ` A}"
    using gs(1) by blast
qed

lemma lang_Repeat_map:
  assumes r: "lang r = f ` A" and ne: "\<And>g. f g \<noteq> []" and le: "lo \<le> h"
  shows "lang (Repeat lo (Some h) r) =
         {concat (map f gs) | gs. lo \<le> length gs \<and> length gs \<le> h \<and> set gs \<subseteq> A}"
proof -
  have "[] \<notin> lang r"
  proof
    assume "[] \<in> lang r"
    then obtain g where "[] = f g" unfolding r by blast
    then show False using ne[of g] by simp
  qed
  then have "lang (Repeat lo (Some h) r) =
      {concat ps | ps. lo \<le> length ps \<and> length ps \<le> h \<and> set ps \<subseteq> f ` A}"
    using lang_Repeat_bounded[of r lo h] le r by simp
  also have "\<dots> = {concat (map f gs) | gs. lo \<le> length gs \<and> length gs \<le> h \<and> set gs \<subseteq> A}"
    using concat_pieces[of "\<lambda>n. lo \<le> n \<and> n \<le> h" f A] by simp
  finally show ?thesis .
qed

lemma concat_singletons: "concat (map (\<lambda>c. [c]) g) = g"
  by (induction g) auto

subsection \<open>Groups of hexadecimal digits\<close>

lemma lang_hexdigit: "lang hexdigit = (\<lambda>c. [c]) ` {c. isHexDigit c}"
  by (auto simp: hexdigit_def isHexDigit_def isDigit_def inRanges_Cons)

lemma lang_h16: "lang h16 = {g. hexGroup g}"
proof -
  have "lang h16 = {concat (map (\<lambda>c. [c]) g) | g. 1 \<le> length g \<and> length g \<le> 4
      \<and> set g \<subseteq> {c. isHexDigit c}}"
    unfolding h16_def by (rule lang_Repeat_map[OF lang_hexdigit]) simp_all
  then show ?thesis by (auto simp: concat_singletons hexGroup_def list_all_iff)
qed

lemma lang_h16c: "lang h16c = (\<lambda>g. g @ '':'') ` {g. hexGroup g}"
  by (auto simp: h16c_def lang_h16)

lemma lang_ch16: "lang ch16 = (\<lambda>g. CHR '':'' # g) ` {g. hexGroup g}"
  by (auto simp: ch16_def lang_h16)

lemma lang_Repeat_h16c:
  "lo \<le> h \<Longrightarrow> lang (Repeat lo (Some h) h16c) =
     {colonAfter gs | gs. lo \<le> length gs \<and> length gs \<le> h \<and> list_all hexGroup gs}"
  using lang_Repeat_map[OF lang_h16c, of lo h]
  by (simp add: colonAfter_def list_all_iff subset_eq)

lemma lang_Repeat_ch16:
  "lo \<le> h \<Longrightarrow> lang (Repeat lo (Some h) ch16) =
     {colonBefore gs | gs. lo \<le> length gs \<and> length gs \<le> h \<and> list_all hexGroup gs}"
  using lang_Repeat_map[OF lang_ch16, of lo h]
  by (simp add: colonBefore_def list_all_iff subset_eq)

lemma colonAfter_joinJS: "gs \<noteq> [] \<Longrightarrow> colonAfter gs = joinJS '':'' gs @ '':''"
proof (induction gs)
  case Nil
  then show ?case by simp
next
  case (Cons g gs)
  then show ?case by (cases gs) (auto simp: colonAfter_def)
qed

lemma colonBefore_joinJS: "gs \<noteq> [] \<Longrightarrow> colonBefore gs = '':'' @ joinJS '':'' gs"
proof (induction gs)
  case Nil
  then show ?case by simp
next
  case (Cons g gs)
  then show ?case by (cases gs) (auto simp: colonBefore_def)
qed

lemma joinJS_snoc: "joinJS '':'' (gs @ [g]) = colonAfter gs @ g"
proof (induction gs)
  case Nil
  show ?case by (simp add: colonAfter_def)
next
  case (Cons x gs)
  then show ?case by (cases gs) (auto simp: colonAfter_def)
qed


subsection \<open>The alternatives made of groups only\<close>

lemma compressedBetweenI:
  "\<lbrakk>lmin \<le> length L; length L \<le> lmax; rmin \<le> length R; length R \<le> rmax;
    list_all hexGroup L; list_all hexGroup R; s = joinJS '':'' L @ ''::'' @ joinJS '':'' R\<rbrakk>
   \<Longrightarrow> compressedBetween lmin lmax rmin rmax s"
  unfolding compressedBetween_def by blast

lemma compressedBetweenE:
  assumes "compressedBetween lmin lmax rmin rmax s"
  obtains L R where "lmin \<le> length L" "length L \<le> lmax" "rmin \<le> length R" "length R \<le> rmax"
    "list_all hexGroup L" "list_all hexGroup R" "s = joinJS '':'' L @ ''::'' @ joinJS '':'' R"
  using assms unfolding compressedBetween_def by blast

lemma compressedFormI:
  "\<lbrakk>length L + length R \<le> 7; list_all hexGroup L; list_all hexGroup R;
    s = joinJS '':'' L @ ''::'' @ joinJS '':'' R\<rbrakk> \<Longrightarrow> compressedForm s"
  unfolding compressedForm_def by blast

lemma compressedFormE:
  assumes "compressedForm s"
  obtains L R where "length L + length R \<le> 7" "list_all hexGroup L" "list_all hexGroup R"
    "s = joinJS '':'' L @ ''::'' @ joinJS '':'' R"
  using assms unfolding compressedForm_def by blast

lemma Repeat_h16cE:
  assumes "p \<in> lang (Repeat lo (Some h) h16c)" "lo \<le> h"
  obtains L where "p = colonAfter L" "lo \<le> length L" "length L \<le> h" "list_all hexGroup L"
  using assms lang_Repeat_h16c[OF assms(2)] by blast

lemma Repeat_ch16E:
  assumes "p \<in> lang (Repeat lo (Some h) ch16)" "lo \<le> h"
  obtains R where "p = colonBefore R" "lo \<le> length R" "length R \<le> h" "list_all hexGroup R"
  using assms lang_Repeat_ch16[OF assms(2)] by blast

lemma Repeat_h16cI:
  "\<lbrakk>lo \<le> length L; length L \<le> h; list_all hexGroup L\<rbrakk>
   \<Longrightarrow> colonAfter L \<in> lang (Repeat lo (Some h) h16c)"
  using lang_Repeat_h16c[of lo h] by force

lemma Repeat_ch16I:
  "\<lbrakk>lo \<le> length R; length R \<le> h; list_all hexGroup R\<rbrakk>
   \<Longrightarrow> colonBefore R \<in> lang (Repeat lo (Some h) ch16)"
  using lang_Repeat_ch16[of lo h] by force

lemma lang_ipv6Alt1: "s \<in> lang ipv6Alt1 \<longleftrightarrow> fullForm s"
proof
  assume "s \<in> lang ipv6Alt1"
  then obtain p g where pg: "s = p @ g" "p \<in> lang (Repeat 7 (Some 7) h16c)" "g \<in> lang h16"
    unfolding ipv6Alt1_def lang_Cat_iff by blast
  from pg(2) obtain L where L: "p = colonAfter L" "7 \<le> length L" "length L \<le> 7"
      "list_all hexGroup L"
    by (rule Repeat_h16cE) simp
  have "s = joinJS '':'' (L @ [g])" using pg(1) L(1) by (simp add: joinJS_snoc)
  moreover have "length (L @ [g]) = 8" using L(2,3) by simp
  moreover have "list_all hexGroup (L @ [g])" using L(4) pg(3) by (simp add: lang_h16)
  ultimately show "fullForm s" unfolding fullForm_def by blast
next
  assume "fullForm s"
  then obtain gs where gs: "length gs = 8" "list_all hexGroup gs" "s = joinJS '':'' gs"
    unfolding fullForm_def by blast
  then have "gs \<noteq> []" by auto
  then have split: "gs = butlast gs @ [last gs]" by simp
  have "list_all hexGroup (butlast gs @ [last gs])" using gs(2) split by simp
  then have h: "list_all hexGroup (butlast gs)" "hexGroup (last gs)" by simp_all
  have "colonAfter (butlast gs) \<in> lang (Repeat 7 (Some 7) h16c)"
    using gs(1) h(1) by (intro Repeat_h16cI) simp_all
  moreover have "last gs \<in> lang h16" using h(2) by (simp add: lang_h16)
  ultimately have "colonAfter (butlast gs) @ last gs \<in> lang ipv6Alt1"
    unfolding ipv6Alt1_def by (rule lang_CatI)
  moreover have "s = colonAfter (butlast gs) @ last gs"
    using gs(3) split joinJS_snoc[of "butlast gs" "last gs"] by simp
  ultimately show "s \<in> lang ipv6Alt1" by simp
qed

lemma lang_left_right:
  assumes "1 \<le> a" "1 \<le> b"
  shows "s \<in> lang (Cat (Repeat 1 (Some a) h16c) (Repeat 1 (Some b) ch16))
         \<longleftrightarrow> compressedBetween 1 a 1 b s"
proof
  assume "s \<in> lang (Cat (Repeat 1 (Some a) h16c) (Repeat 1 (Some b) ch16))"
  then obtain p q where pq: "s = p @ q" "p \<in> lang (Repeat 1 (Some a) h16c)"
      "q \<in> lang (Repeat 1 (Some b) ch16)"
    unfolding lang_Cat_iff by blast
  from pq(2) assms(1) obtain L where L: "p = colonAfter L" "1 \<le> length L" "length L \<le> a"
      "list_all hexGroup L"
    by (rule Repeat_h16cE)
  from pq(3) assms(2) obtain R where R: "q = colonBefore R" "1 \<le> length R" "length R \<le> b"
      "list_all hexGroup R"
    by (rule Repeat_ch16E)
  have "L \<noteq> []" "R \<noteq> []" using L(2) R(2) by auto
  then have "s = joinJS '':'' L @ ''::'' @ joinJS '':'' R"
    using pq(1) L(1) R(1) by (simp add: colonAfter_joinJS colonBefore_joinJS)
  with L R show "compressedBetween 1 a 1 b s"
    by (intro compressedBetweenI[where L=L and R=R])
next
  assume "compressedBetween 1 a 1 b s"
  then obtain L R where *: "1 \<le> length L" "length L \<le> a" "1 \<le> length R" "length R \<le> b"
    "list_all hexGroup L" "list_all hexGroup R" "s = joinJS '':'' L @ ''::'' @ joinJS '':'' R"
    by (rule compressedBetweenE)
  have ne: "L \<noteq> []" "R \<noteq> []" using *(1,3) by auto
  have "colonAfter L @ colonBefore R \<in> lang (Cat (Repeat 1 (Some a) h16c) (Repeat 1 (Some b) ch16))"
    using * by (intro lang_CatI Repeat_h16cI Repeat_ch16I)
  moreover have "s = colonAfter L @ colonBefore R"
    using *(7) ne by (simp add: colonAfter_joinJS colonBefore_joinJS)
  ultimately show "s \<in> lang (Cat (Repeat 1 (Some a) h16c) (Repeat 1 (Some b) ch16))" by simp
qed

lemma singleton_list: "1 \<le> length xs \<Longrightarrow> length xs \<le> 1 \<Longrightarrow> \<exists>x. xs = [x]"
  by (cases xs) auto

lemma lang_ipv6Alt2: "s \<in> lang ipv6Alt2 \<longleftrightarrow> compressedBetween 1 7 0 0 s"
proof
  assume "s \<in> lang ipv6Alt2"
  then obtain p where p: "s = p @ '':''" "p \<in> lang (Repeat 1 (Some 7) h16c)"
    unfolding ipv6Alt2_def lang_Cat_iff by auto
  from p(2) obtain L where L: "p = colonAfter L" "1 \<le> length L" "length L \<le> 7"
      "list_all hexGroup L"
    by (rule Repeat_h16cE) simp
  have "L \<noteq> []" using L(2) by auto
  then have "s = joinJS '':'' L @ ''::'' @ joinJS '':'' []"
    using p(1) L(1) by (simp add: colonAfter_joinJS)
  with L show "compressedBetween 1 7 0 0 s"
    by (intro compressedBetweenI[where L=L and R="[]"]) simp_all
next
  assume "compressedBetween 1 7 0 0 s"
  then obtain L R where *: "1 \<le> length L" "length L \<le> 7" "length R \<le> 0"
    "list_all hexGroup L" "s = joinJS '':'' L @ ''::'' @ joinJS '':'' R"
    by (rule compressedBetweenE)
  have ne: "L \<noteq> []" "R = []" using *(1,3) by auto
  have "colonAfter L @ '':'' \<in> lang ipv6Alt2"
    unfolding ipv6Alt2_def using * by (intro lang_CatI Repeat_h16cI) simp_all
  moreover have "s = colonAfter L @ '':''"
    using *(5) ne by (simp add: colonAfter_joinJS)
  ultimately show "s \<in> lang ipv6Alt2" by simp
qed

lemma lang_ipv6Alt3: "s \<in> lang ipv6Alt3 \<longleftrightarrow> compressedBetween 1 6 1 1 s"
proof
  assume "s \<in> lang ipv6Alt3"
  then obtain p q where pq: "s = p @ q" "p \<in> lang (Repeat 1 (Some 6) h16c)" "q \<in> lang ch16"
    unfolding ipv6Alt3_def lang_Cat_iff by blast
  from pq(2) obtain L where L: "p = colonAfter L" "1 \<le> length L" "length L \<le> 6"
      "list_all hexGroup L"
    by (rule Repeat_h16cE) simp
  from pq(3) obtain g where g: "q = CHR '':'' # g" "hexGroup g"
    unfolding lang_ch16 by blast
  have "L \<noteq> []" using L(2) by auto
  then have "s = joinJS '':'' L @ ''::'' @ joinJS '':'' [g]"
    using pq(1) L(1) g(1) by (simp add: colonAfter_joinJS)
  with L g(2) show "compressedBetween 1 6 1 1 s"
    by (intro compressedBetweenI[where L=L and R="[g]"]) simp_all
next
  assume "compressedBetween 1 6 1 1 s"
  then obtain L R where *: "1 \<le> length L" "length L \<le> 6" "1 \<le> length R" "length R \<le> 1"
    "list_all hexGroup L" "list_all hexGroup R" "s = joinJS '':'' L @ ''::'' @ joinJS '':'' R"
    by (rule compressedBetweenE)
  from singleton_list[OF *(3,4)] obtain g where g: "R = [g]" by blast
  have ne: "L \<noteq> []" using *(1) by auto
  have "CHR '':'' # g \<in> lang ch16" using *(6) g by (simp add: lang_ch16)
  then have "colonAfter L @ CHR '':'' # g \<in> lang ipv6Alt3"
    unfolding ipv6Alt3_def using * by (intro lang_CatI Repeat_h16cI)
  moreover have "s = colonAfter L @ CHR '':'' # g"
    using *(7) ne g by (simp add: colonAfter_joinJS)
  ultimately show "s \<in> lang ipv6Alt3" by simp
qed

lemma lang_ipv6Alt8: "s \<in> lang ipv6Alt8 \<longleftrightarrow> compressedBetween 1 1 1 6 s"
proof
  assume "s \<in> lang ipv6Alt8"
  then obtain p q where pq: "s = p @ q" "p \<in> lang h16c" "q \<in> lang (Repeat 1 (Some 6) ch16)"
    unfolding ipv6Alt8_def lang_Cat_iff by blast
  from pq(2) obtain g where g: "p = g @ '':''" "hexGroup g"
    unfolding lang_h16c by blast
  from pq(3) obtain R where R: "q = colonBefore R" "1 \<le> length R" "length R \<le> 6"
      "list_all hexGroup R"
    by (rule Repeat_ch16E) simp
  have "R \<noteq> []" using R(2) by auto
  then have "s = joinJS '':'' [g] @ ''::'' @ joinJS '':'' R"
    using pq(1) R(1) g(1) by (simp add: colonBefore_joinJS)
  with R g(2) show "compressedBetween 1 1 1 6 s"
    by (intro compressedBetweenI[where L="[g]" and R=R]) simp_all
next
  assume "compressedBetween 1 1 1 6 s"
  then obtain L R where *: "1 \<le> length L" "length L \<le> 1" "1 \<le> length R" "length R \<le> 6"
    "list_all hexGroup L" "list_all hexGroup R" "s = joinJS '':'' L @ ''::'' @ joinJS '':'' R"
    by (rule compressedBetweenE)
  from singleton_list[OF *(1,2)] obtain g where g: "L = [g]" by blast
  have ne: "R \<noteq> []" using *(3) by auto
  have "g @ '':'' \<in> lang h16c" using *(5) g by (simp add: lang_h16c)
  then have "(g @ '':'') @ colonBefore R \<in> lang ipv6Alt8"
    unfolding ipv6Alt8_def using * by (intro lang_CatI Repeat_ch16I)
  moreover have "s = (g @ '':'') @ colonBefore R"
    using *(7) ne g by (simp add: colonBefore_joinJS)
  ultimately show "s \<in> lang ipv6Alt8" by simp
qed

lemma lang_ipv6Alt9: "s \<in> lang ipv6Alt9 \<longleftrightarrow> compressedBetween 0 0 0 7 s"
proof
  assume "s \<in> lang ipv6Alt9"
  then obtain q where q: "s = '':'' @ q" "q \<in> lang (Repeat 1 (Some 7) ch16) \<or> q = '':''"
    unfolding ipv6Alt9_def lang_Cat_iff by auto
  from q(2) show "compressedBetween 0 0 0 7 s"
  proof
    assume "q \<in> lang (Repeat 1 (Some 7) ch16)"
    then obtain R where R: "q = colonBefore R" "1 \<le> length R" "length R \<le> 7"
        "list_all hexGroup R"
      by (rule Repeat_ch16E) simp
    have "R \<noteq> []" using R(2) by auto
    then have "s = joinJS '':'' [] @ ''::'' @ joinJS '':'' R"
      using q(1) R(1) by (simp add: colonBefore_joinJS)
    with R show ?thesis by (intro compressedBetweenI[where L="[]" and R=R]) simp_all
  next
    assume "q = '':''"
    then have "s = joinJS '':'' [] @ ''::'' @ joinJS '':'' []" using q(1) by simp
    then show ?thesis by (intro compressedBetweenI[where L="[]" and R="[]"]) simp_all
  qed
next
  assume "compressedBetween 0 0 0 7 s"
  then obtain L R where *: "length L \<le> 0" "length R \<le> 7"
    "list_all hexGroup R" "s = joinJS '':'' L @ ''::'' @ joinJS '':'' R"
    by (rule compressedBetweenE)
  have L: "L = []" using *(1) by simp
  show "s \<in> lang ipv6Alt9"
  proof (cases "R = []")
    case True
    have "'':'' @ '':'' \<in> lang ipv6Alt9"
      unfolding ipv6Alt9_def by (intro lang_CatI) simp_all
    then show ?thesis using *(4) L True by simp
  next
    case False
    then have "1 \<le> length R" by (cases R) auto
    then have "colonBefore R \<in> lang (Alt (Repeat 1 (Some 7) ch16) (Lit '':''))"
      using * Repeat_ch16I[of 1 R 7] by simp
    then have "'':'' @ colonBefore R \<in> lang ipv6Alt9"
      unfolding ipv6Alt9_def by (intro lang_CatI) simp_all
    moreover have "s = '':'' @ colonBefore R"
      using *(4) L False by (simp add: colonBefore_joinJS)
    ultimately show ?thesis by simp
  qed
qed

lemma compressedForm_alts:
  "compressedForm s \<longleftrightarrow>
     compressedBetween 1 7 0 0 s \<or> compressedBetween 1 6 1 1 s \<or> compressedBetween 1 5 1 2 s
   \<or> compressedBetween 1 4 1 3 s \<or> compressedBetween 1 3 1 4 s \<or> compressedBetween 1 2 1 5 s
   \<or> compressedBetween 1 1 1 6 s \<or> compressedBetween 0 0 0 7 s"
proof
  assume "compressedForm s"
  then obtain L R where *: "length L + length R \<le> 7" "list_all hexGroup L" "list_all hexGroup R"
    "s = joinJS '':'' L @ ''::'' @ joinJS '':'' R"
    by (rule compressedFormE)
  have between: "\<And>lmin lmax rmin rmax.
      lmin \<le> length L \<Longrightarrow> length L \<le> lmax \<Longrightarrow> rmin \<le> length R \<Longrightarrow> length R \<le> rmax
      \<Longrightarrow> compressedBetween lmin lmax rmin rmax s"
    using *(2,3,4) by (intro compressedBetweenI[where L=L and R=R])
  consider "length L = 0" | "1 \<le> length L" "length R = 0"
    | "1 \<le> length L" "length R = 1" | "1 \<le> length L" "length R = 2"
    | "1 \<le> length L" "length R = 3" | "1 \<le> length L" "length R = 4"
    | "1 \<le> length L" "length R = 5" | "1 \<le> length L" "length R = 6"
    using *(1) by linarith
  then show "compressedBetween 1 7 0 0 s \<or> compressedBetween 1 6 1 1 s \<or> compressedBetween 1 5 1 2 s
   \<or> compressedBetween 1 4 1 3 s \<or> compressedBetween 1 3 1 4 s \<or> compressedBetween 1 2 1 5 s
   \<or> compressedBetween 1 1 1 6 s \<or> compressedBetween 0 0 0 7 s"
  proof cases
    case 1
    then have "compressedBetween 0 0 0 7 s" using *(1) by (intro between) simp_all
    then show ?thesis by blast
  next
    case 2
    then have "compressedBetween 1 7 0 0 s" using *(1) by (intro between) simp_all
    then show ?thesis by blast
  next
    case 3
    then have "compressedBetween 1 6 1 1 s" using *(1) by (intro between) simp_all
    then show ?thesis by blast
  next
    case 4
    then have "compressedBetween 1 5 1 2 s" using *(1) by (intro between) simp_all
    then show ?thesis by blast
  next
    case 5
    then have "compressedBetween 1 4 1 3 s" using *(1) by (intro between) simp_all
    then show ?thesis by blast
  next
    case 6
    then have "compressedBetween 1 3 1 4 s" using *(1) by (intro between) simp_all
    then show ?thesis by blast
  next
    case 7
    then have "compressedBetween 1 2 1 5 s" using *(1) by (intro between) simp_all
    then show ?thesis by blast
  next
    case 8
    then have "compressedBetween 1 1 1 6 s" using *(1) by (intro between) simp_all
    then show ?thesis by blast
  qed
next
  have sub: "compressedBetween lmin lmax rmin rmax s \<Longrightarrow> lmax + rmax \<le> 7 \<Longrightarrow> compressedForm s"
    for lmin lmax rmin rmax
  proof -
    assume "compressedBetween lmin lmax rmin rmax s" and le: "lmax + rmax \<le> 7"
    then obtain L R where *: "length L \<le> lmax" "length R \<le> rmax"
      "list_all hexGroup L" "list_all hexGroup R" "s = joinJS '':'' L @ ''::'' @ joinJS '':'' R"
      by (elim compressedBetweenE)
    have "length L + length R \<le> 7" using *(1,2) le by linarith
    then show "compressedForm s" using *(3,4,5) by (rule compressedFormI[where L=L and R=R])
  qed
  assume "compressedBetween 1 7 0 0 s \<or> compressedBetween 1 6 1 1 s \<or> compressedBetween 1 5 1 2 s
   \<or> compressedBetween 1 4 1 3 s \<or> compressedBetween 1 3 1 4 s \<or> compressedBetween 1 2 1 5 s
   \<or> compressedBetween 1 1 1 6 s \<or> compressedBetween 0 0 0 7 s"
  then show "compressedForm s"
    by (elim disjE) (erule sub, simp)+
qed

lemma lang_hex_alts:
  "s \<in> lang ipv6Alt1 \<union> lang ipv6Alt2 \<union> lang ipv6Alt3 \<union> lang ipv6Alt4 \<union> lang ipv6Alt5
        \<union> lang ipv6Alt6 \<union> lang ipv6Alt7 \<union> lang ipv6Alt8 \<union> lang ipv6Alt9
   \<longleftrightarrow> fullForm s \<or> compressedForm s"
proof -
  have 4: "s \<in> lang ipv6Alt4 \<longleftrightarrow> compressedBetween 1 5 1 2 s"
    unfolding ipv6Alt4_def by (rule lang_left_right) simp_all
  have 5: "s \<in> lang ipv6Alt5 \<longleftrightarrow> compressedBetween 1 4 1 3 s"
    unfolding ipv6Alt5_def by (rule lang_left_right) simp_all
  have 6: "s \<in> lang ipv6Alt6 \<longleftrightarrow> compressedBetween 1 3 1 4 s"
    unfolding ipv6Alt6_def by (rule lang_left_right) simp_all
  have 7: "s \<in> lang ipv6Alt7 \<longleftrightarrow> compressedBetween 1 2 1 5 s"
    unfolding ipv6Alt7_def by (rule lang_left_right) simp_all
  show ?thesis
    unfolding Un_iff lang_ipv6Alt1 lang_ipv6Alt2 lang_ipv6Alt3 4 5 6 7 lang_ipv6Alt8 lang_ipv6Alt9
      compressedForm_alts
    by blast
qed


subsection \<open>The zone alternative\<close>

lemma lang_Repeat_unbounded:
  assumes "[] \<notin> lang r"
  shows "lang (Repeat lo None r) = {concat ps | ps. lo \<le> length ps \<and> set ps \<subseteq> lang r}"
proof (intro set_eqI iffI)
  fix x
  assume "x \<in> lang (Repeat lo None r)"
  then obtain ps qs where *: "x = concat ps @ concat qs" "length ps = lo" "set ps \<subseteq> lang r"
      "set qs \<subseteq> lang r - {[]}"
    by (auto simp: lang.simps(5))
  show "x \<in> {concat ps | ps. lo \<le> length ps \<and> set ps \<subseteq> lang r}"
    using * by (intro CollectI exI[of _ "ps @ qs"]) auto
next
  fix x
  assume "x \<in> {concat ps | ps. lo \<le> length ps \<and> set ps \<subseteq> lang r}"
  then obtain ps where *: "x = concat ps" "lo \<le> length ps" "set ps \<subseteq> lang r"
    by auto
  have "concat (take lo ps @ drop lo ps) = concat (take lo ps) @ concat (drop lo ps)"
    by (rule concat_append)
  then have "x = concat (take lo ps) @ concat (drop lo ps)"
    using *(1) by simp
  moreover have "length (take lo ps) = lo" using *(2) by simp
  moreover have "set (take lo ps) \<subseteq> lang r"
    using *(3) set_take_subset[of lo ps] by blast
  moreover have "set (drop lo ps) \<subseteq> lang r - {[]}"
    using *(3) assms set_drop_subset[of lo ps] by blast
  ultimately show "x \<in> lang (Repeat lo None r)"
    unfolding lang.simps option.case by blast
qed

lemma lang_alnum: "lang alnum = (\<lambda>c. [c]) ` {c. isAlnum c}"
  by (auto simp: alnum_def isAlnum_def isDigit_def inRanges_Cons)

lemma lang_zone: "lang (Repeat 1 None alnum) = {z. z \<noteq> [] \<and> list_all isAlnum z}"
proof -
  have "[] \<notin> lang alnum" unfolding lang_alnum by blast
  then have "lang (Repeat 1 None alnum) =
      {concat ps | ps. 1 \<le> length ps \<and> set ps \<subseteq> (\<lambda>c. [c]) ` {c. isAlnum c}}"
    using lang_Repeat_unbounded[of alnum 1] by (simp add: lang_alnum)
  also have "\<dots> = {concat (map (\<lambda>c. [c]) z) | z. 1 \<le> length z \<and> set z \<subseteq> {c. isAlnum c}}"
    by (rule concat_pieces)
  also have "\<dots> = {z. z \<noteq> [] \<and> list_all isAlnum z}"
    by (auto simp: concat_singletons list_all_iff Suc_le_eq)
  finally show ?thesis .
qed

lemma lang_zoneGroup: "lang (Repeat 0 (Some 4) hexdigit) = {g. zoneGroup g}"
proof -
  have "lang (Repeat 0 (Some 4) hexdigit) =
      {concat (map (\<lambda>c. [c]) g) | g. 0 \<le> length g \<and> length g \<le> 4 \<and> set g \<subseteq> {c. isHexDigit c}}"
    by (rule lang_Repeat_map[OF lang_hexdigit]) simp_all
  then show ?thesis by (auto simp: concat_singletons zoneGroup_def list_all_iff)
qed

lemma lang_colon_zoneGroup:
  "lang (Cat (Lit '':'') (Repeat 0 (Some 4) hexdigit)) = (\<lambda>g. CHR '':'' # g) ` {g. zoneGroup g}"
  unfolding lang.simps(3) lang_zoneGroup by auto

lemma lang_zoneGroups:
  "lang (Repeat 0 (Some 4) (Cat (Lit '':'') (Repeat 0 (Some 4) hexdigit))) =
     {colonBefore gs | gs. length gs \<le> 4 \<and> list_all zoneGroup gs}"
  using lang_Repeat_map[OF lang_colon_zoneGroup, of 0 4]
  by (simp add: colonBefore_def list_all_iff subset_eq)

lemma lang_ipv6Alt10: "s \<in> lang ipv6Alt10 \<longleftrightarrow> zoneForm s"
proof
  assume "s \<in> lang ipv6Alt10"
  then obtain t where t: "s = ''fe80:'' @ t"
      "t \<in> lang (Cat (Repeat 0 (Some 4) (Cat (Lit '':'') (Repeat 0 (Some 4) hexdigit)))
                     (Cat (Lit ''%'') (Repeat 1 None alnum)))"
    unfolding ipv6Alt10_def lang_Cat_iff[of s] by auto
  from t(2) obtain p u where pu: "t = p @ u"
      "p \<in> lang (Repeat 0 (Some 4) (Cat (Lit '':'') (Repeat 0 (Some 4) hexdigit)))"
      "u \<in> lang (Cat (Lit ''%'') (Repeat 1 None alnum))"
    unfolding lang_Cat_iff[of t] by blast
  from pu(2) obtain gs where gs: "p = colonBefore gs" "length gs \<le> 4" "list_all zoneGroup gs"
    unfolding lang_zoneGroups by blast
  from pu(3) obtain z where z: "u = ''%'' @ z" "z \<noteq> []" "list_all isAlnum z"
    unfolding lang_Cat_iff[of u] lang_zone by auto
  have "s = ''fe80:'' @ colonBefore gs @ ''%'' @ z" using t(1) pu(1) gs(1) z(1) by simp
  then show "zoneForm s" unfolding zoneForm_def using gs(2,3) z(2,3) by blast
next
  assume "zoneForm s"
  then obtain gs z where *: "length gs \<le> 4" "list_all zoneGroup gs" "z \<noteq> []" "list_all isAlnum z"
      "s = ''fe80:'' @ colonBefore gs @ ''%'' @ z"
    unfolding zoneForm_def by blast
  have "colonBefore gs \<in> lang (Repeat 0 (Some 4) (Cat (Lit '':'') (Repeat 0 (Some 4) hexdigit)))"
    unfolding lang_zoneGroups using *(1,2) by blast
  moreover have "z \<in> lang (Repeat 1 None alnum)" unfolding lang_zone using *(3,4) by simp
  ultimately have "''fe80:'' @ colonBefore gs @ ''%'' @ z \<in> lang ipv6Alt10"
    unfolding ipv6Alt10_def by (intro lang_CatI) simp_all
  then show "s \<in> lang ipv6Alt10" using *(5) by simp
qed


subsection \<open>The alternatives with a dotted tail\<close>

lemma conc_insert:
  "{p @ q | p q. p \<in> insert a A \<and> q \<in> B} = (\<lambda>q. a @ q) ` B \<union> {p @ q | p q. p \<in> A \<and> q \<in> B}"
  by blast

lemma conc_empty: "{p @ q | p q. p \<in> {} \<and> q \<in> B} = {}"
  by blast

lemma lang_opt_one: "lang (Repeat 0 (Some 1) (Lit ''1'')) = {[], ''1''}"
  by (subst lang_optional) auto

lemma lang_dec8_inner:
  "lang (Alt (Cat (Lit ''2'') (Chars [(CHR ''0'', CHR ''4'')]))
             (Cat (Repeat 0 (Some 1) (Lit ''1'')) digit))
   = {[CHR ''2'', c] | c. CHR ''0'' \<le> c \<and> c \<le> CHR ''4''}
     \<union> {[c] | c. isDigit c} \<union> {[CHR ''1'', c] | c. isDigit c}"
proof -
  have a: "lang (Cat (Lit ''2'') (Chars [(CHR ''0'', CHR ''4'')]))
      = {[CHR ''2'', c] | c. CHR ''0'' \<le> c \<and> c \<le> CHR ''4''}"
    by auto
  have b: "lang (Cat (Repeat 0 (Some 1) (Lit ''1'')) digit)
      = {[c] | c. isDigit c} \<union> {[CHR ''1'', c] | c. isDigit c}"
    unfolding lang.simps(3) lang_opt_one lang_digit conc_insert conc_empty by auto
  show ?thesis unfolding lang.simps(4) a b by blast
qed

lemma lang_dec8_elim:
  assumes "x \<in> lang dec8"
  obtains (hi) c where "x = [CHR ''2'', CHR ''5'', c]" "CHR ''0'' \<le> c" "c \<le> CHR ''5''"
  | (one) d where "x = [d]" "isDigit d"
  | (two) c d where "x = [c, d]" "isDigit c" "isDigit d"
  | (hundred) c d where "x = [CHR ''1'', c, d]" "isDigit c" "isDigit d"
  | (mid) c d where "x = [CHR ''2'', c, d]" "CHR ''0'' \<le> c" "c \<le> CHR ''4''" "isDigit d"
proof -
  have ne: "[] \<notin> lang (Alt (Cat (Lit ''2'') (Chars [(CHR ''0'', CHR ''4'')]))
             (Cat (Repeat 0 (Some 1) (Lit ''1'')) digit))"
    unfolding lang_dec8_inner by simp
  from assms consider
      "x \<in> lang (Cat (Lit ''25'') (Chars [(CHR ''0'', CHR ''5'')]))"
    | "x \<in> lang (Cat (Repeat 0 (Some 1)
                 (Alt (Cat (Lit ''2'') (Chars [(CHR ''0'', CHR ''4'')]))
                      (Cat (Repeat 0 (Some 1) (Lit ''1'')) digit))) digit)"
    unfolding dec8_def lang.simps(4) by blast
  then show thesis
  proof cases
    case 1
    then obtain c where "x = [CHR ''2'', CHR ''5'', c]" "CHR ''0'' \<le> c" "c \<le> CHR ''5''"
      by auto
    then show thesis by (rule hi)
  next
    case 2
    then obtain p d where pd: "x = p @ [d]" "isDigit d"
        "p \<in> insert [] ({[CHR ''2'', c] | c. CHR ''0'' \<le> c \<and> c \<le> CHR ''4''}
               \<union> {[c] | c. isDigit c} \<union> {[CHR ''1'', c] | c. isDigit c})"
      unfolding lang_Cat_iff[of x] lang_optional[OF ne] lang_dec8_inner lang_digit by blast
    from pd(3) consider "p = []" | c where "p = [CHR ''2'', c]" "CHR ''0'' \<le> c" "c \<le> CHR ''4''"
      | c where "p = [c]" "isDigit c" | c where "p = [CHR ''1'', c]" "isDigit c"
      by blast
    then show thesis
    proof cases
      case 1
      then show thesis using pd(1,2) by (intro one[of d]) simp_all
    next
      case (2 c)
      then show thesis using pd(1,2) by (intro mid[of c d]) simp_all
    next
      case (3 c)
      then show thesis using pd(1,2) by (intro two[of c d]) simp_all
    next
      case (4 c)
      then show thesis using pd(1,2) by (intro hundred[of c d]) simp_all
    qed
  qed
qed

lemma lang_dec8_intro:
  assumes "isDigit d"
    and "p = [] \<or> (\<exists>c. p = [CHR ''2'', c] \<and> CHR ''0'' \<le> c \<and> c \<le> CHR ''4'')
         \<or> (\<exists>c. p = [c] \<and> isDigit c) \<or> (\<exists>c. p = [CHR ''1'', c] \<and> isDigit c)"
  shows "p @ [d] \<in> lang dec8"
proof -
  have ne: "[] \<notin> lang (Alt (Cat (Lit ''2'') (Chars [(CHR ''0'', CHR ''4'')]))
             (Cat (Repeat 0 (Some 1) (Lit ''1'')) digit))"
    unfolding lang_dec8_inner by simp
  have "p \<in> lang (Repeat 0 (Some 1)
                 (Alt (Cat (Lit ''2'') (Chars [(CHR ''0'', CHR ''4'')]))
                      (Cat (Repeat 0 (Some 1) (Lit ''1'')) digit)))"
    unfolding lang_optional[OF ne] lang_dec8_inner using assms(2) by blast
  moreover have "[d] \<in> lang digit" using assms(1) by (simp add: lang_digit)
  ultimately show ?thesis unfolding dec8_def lang.simps(4) by (intro UnI2 lang_CatI)
qed

lemma lang_dec8: "x \<in> lang dec8 \<longleftrightarrow> tailOctet x"
proof
  assume "x \<in> lang dec8"
  then show "tailOctet x"
  proof (cases rule: lang_dec8_elim)
    case (hi c)
    then show ?thesis
      by (simp add: tailOctet_def decOctet_def decVal_simps isDigit_code less_eq_char_def; arith)
  next
    case (one d)
    then show ?thesis
      by (simp add: tailOctet_def decOctet_def decVal_simps isDigit_code; arith)
  next
    case (two c d)
    then show ?thesis
      by (simp add: tailOctet_def decOctet_def decVal_simps isDigit_code; arith)
  next
    case (hundred c d)
    then show ?thesis
      by (simp add: tailOctet_def decOctet_def decVal_simps isDigit_code; arith)
  next
    case (mid c d)
    then show ?thesis
      by (simp add: tailOctet_def decOctet_def decVal_simps isDigit_code less_eq_char_def; arith)
  qed
next
  assume t: "tailOctet x"
  then have d: "decOctet x" by (simp add: tailOctet_def)
  then consider a where "x = [a]" | a b where "x = [a, b]" | a b c where "x = [a, b, c]"
    unfolding decOctet_def
    by (cases x; cases "tl x"; cases "tl (tl x)"; cases "tl (tl (tl x))") auto
  then show "x \<in> lang dec8"
  proof cases
    case 1
    then have "isDigit a" using d by (simp add: decOctet_def)
    then have "[] @ [a] \<in> lang dec8" by (intro lang_dec8_intro) simp_all
    then show ?thesis using 1 by simp
  next
    case 2
    then have "isDigit a" "isDigit b" using d by (simp_all add: decOctet_def)
    then have "[a] @ [b] \<in> lang dec8" by (intro lang_dec8_intro) simp_all
    then show ?thesis using 2 by simp
  next
    case 3
    then have dg: "isDigit a" "isDigit b" "isDigit c" and v: "decVal [a, b, c] \<le> 255"
      and a0: "a \<noteq> CHR ''0''"
      using d t by (simp_all add: decOctet_def tailOctet_def)
    have a2: "of_char a \<le> (50 :: nat)"
      using v dg unfolding decVal_simps isDigit_code by presburger
    have "of_char a \<noteq> (48 :: nat)" using a0 by (simp add: char_eq_code)
    then have "of_char a = (49 :: nat) \<or> of_char a = (50 :: nat)"
      using a2 dg(1) unfolding isDigit_code by presburger
    then consider "a = CHR ''1''" | "a = CHR ''2''"
      by (auto simp: char_eq_code)
    then show ?thesis
    proof cases
      case 1
      have "[CHR ''1'', b] @ [c] \<in> lang dec8" using dg by (intro lang_dec8_intro) simp_all
      then show ?thesis using \<open>x = [a, b, c]\<close> 1 by simp
    next
      case 2
      have a50: "of_char a = (50 :: nat)" using 2 by simp
      have b5: "of_char b \<le> (53 :: nat)"
        using v dg a50 unfolding decVal_simps isDigit_code by presburger
      show ?thesis
      proof (cases "b = CHR ''5''")
        case True
        have "of_char b = (53 :: nat)" using True by simp
        then have "of_char c \<le> (53 :: nat)"
          using v dg a50 unfolding decVal_simps isDigit_code by presburger
        then have "''25'' @ [c] \<in> lang (Cat (Lit ''25'') (Chars [(CHR ''0'', CHR ''5'')]))"
          using dg(3) by (intro lang_CatI) (simp_all add: isDigit_code less_eq_char_def)
        then show ?thesis unfolding \<open>x = [a, b, c]\<close> 2 True dec8_def lang.simps(4) by simp
      next
        case False
        then have "of_char b \<noteq> (53 :: nat)" by (simp add: char_eq_code)
        then have "of_char b \<le> (52 :: nat)" using b5 by presburger
        then have "CHR ''0'' \<le> b \<and> b \<le> CHR ''4''"
          using dg(2) by (simp add: isDigit_code less_eq_char_def)
        then have "[CHR ''2'', b] @ [c] \<in> lang dec8" using dg by (intro lang_dec8_intro) simp_all
        then show ?thesis using \<open>x = [a, b, c]\<close> 2 by simp
      qed
    qed
  qed
qed

lemma lang_v4tail: "q \<in> lang v4tail \<longleftrightarrow> dottedQuad q"
proof -
  have d: "lang (Cat dec8 (Lit ''.'')) = (\<lambda>x. x @ ''.'') ` {x. tailOctet x}"
    unfolding lang.simps(1,3) using lang_dec8 by blast
  have three: "lang (Repeat 3 (Some 3) (Cat dec8 (Lit ''.''))) =
      {concat (map (\<lambda>x. x @ ''.'') xs) | xs. 3 \<le> length xs \<and> length xs \<le> 3
         \<and> set xs \<subseteq> {x. tailOctet x}}"
    by (rule lang_Repeat_map[OF d]) simp_all
  show ?thesis
  proof
    assume "q \<in> lang v4tail"
    then obtain p d where pd: "q = p @ d" "p \<in> lang (Repeat 3 (Some 3) (Cat dec8 (Lit ''.'')))"
        "d \<in> lang dec8"
      unfolding v4tail_def lang_Cat_iff by blast
    from pd(2) obtain xs where xs: "p = concat (map (\<lambda>x. x @ ''.'') xs)" "length xs = 3"
        "set xs \<subseteq> {x. tailOctet x}"
      unfolding three by auto
    from xs(2) obtain a b c where abc: "xs = [a, b, c]"
      by (cases xs; cases "tl xs"; cases "tl (tl xs)"; cases "tl (tl (tl xs))") auto
    have "q = a @ ''.'' @ b @ ''.'' @ c @ ''.'' @ d" using pd(1) xs(1) abc by simp
    moreover have "tailOctet a" "tailOctet b" "tailOctet c" using xs(3) abc by simp_all
    moreover have "tailOctet d" using pd(3) lang_dec8 by simp
    ultimately show "dottedQuad q" unfolding dottedQuad_def by blast
  next
    assume "dottedQuad q"
    then obtain a b c d where *: "tailOctet a" "tailOctet b" "tailOctet c" "tailOctet d"
        "q = a @ ''.'' @ b @ ''.'' @ c @ ''.'' @ d"
      unfolding dottedQuad_def by blast
    have "concat (map (\<lambda>x. x @ ''.'') [a, b, c]) \<in> lang (Repeat 3 (Some 3) (Cat dec8 (Lit ''.'')))"
      unfolding three using *(1,2,3) by (intro CollectI exI[of _ "[a, b, c]"]) simp
    moreover have "d \<in> lang dec8" using *(4) lang_dec8 by simp
    ultimately have "concat (map (\<lambda>x. x @ ''.'') [a, b, c]) @ d \<in> lang v4tail"
      unfolding v4tail_def by (rule lang_CatI)
    then show "q \<in> lang v4tail" using *(5) by simp
  qed
qed

lemma lang_zeros:
  "lang (Repeat 1 (Some 4) (Lit ''0'')) = {replicate n (CHR ''0'') | n. 1 \<le> n \<and> n \<le> 4}"
proof -
  have z: "lang (Lit ''0'') = (\<lambda>u :: unit. ''0'') ` UNIV" by auto
  have c: "concat (map (\<lambda>u :: unit. ''0'') us) = replicate (length us) (CHR ''0'')" for us
    by (induction us) auto
  have "lang (Repeat 1 (Some 4) (Lit ''0'')) =
      {concat (map (\<lambda>u :: unit. ''0'') us) | us. 1 \<le> length us \<and> length us \<le> 4 \<and> set us \<subseteq> UNIV}"
    by (rule lang_Repeat_map[OF z]) simp_all
  also have "\<dots> = {replicate n (CHR ''0'') | n. 1 \<le> n \<and> n \<le> 4}"
  proof (intro set_eqI iffI)
    fix x
    assume "x \<in> {concat (map (\<lambda>u :: unit. ''0'') us) | us. 1 \<le> length us \<and> length us \<le> 4 \<and> set us \<subseteq> UNIV}"
    then obtain us :: "unit list" where "x = replicate (length us) (CHR ''0'')"
        "1 \<le> length us" "length us \<le> 4"
      unfolding c by blast
    then show "x \<in> {replicate n (CHR ''0'') | n. 1 \<le> n \<and> n \<le> 4}" by blast
  next
    fix x
    assume "x \<in> {replicate n (CHR ''0'') | n. 1 \<le> n \<and> n \<le> 4}"
    then obtain n where n: "x = replicate n (CHR ''0'')" "1 \<le> n" "n \<le> 4" by blast
    have "x = concat (map (\<lambda>u :: unit. ''0'') (replicate n ()))" using n(1) c by simp
    moreover have "1 \<le> length (replicate n ())" "length (replicate n ()) \<le> 4" using n(2,3) by simp_all
    ultimately show "x \<in> {concat (map (\<lambda>u :: unit. ''0'') us) | us. 1 \<le> length us \<and> length us \<le> 4 \<and> set us \<subseteq> UNIV}"
      by blast
  qed
  finally show ?thesis .
qed

lemma lang_mappedPrefix:
  "p \<in> lang (Repeat 0 (Some 1)
               (Cat (Lit ''ffff'')
               (Cat (Repeat 0 (Some 1) (Cat (Lit '':'') (Repeat 1 (Some 4) (Lit ''0''))))
                    (Lit '':''))))
   \<longleftrightarrow> mappedPrefix p"
proof -
  have zs: "lang (Cat (Lit '':'') (Repeat 1 (Some 4) (Lit ''0'')))
      = {'':'' @ replicate n (CHR ''0'') | n. 1 \<le> n \<and> n \<le> 4}"
    unfolding lang.simps(1,3) lang_zeros by blast
  have ne1: "[] \<notin> lang (Cat (Lit '':'') (Repeat 1 (Some 4) (Lit ''0'')))"
    unfolding zs by simp
  have inner: "lang (Cat (Lit ''ffff'')
               (Cat (Repeat 0 (Some 1) (Cat (Lit '':'') (Repeat 1 (Some 4) (Lit ''0''))))
                    (Lit '':'')))
      = insert ''ffff:'' {''ffff:'' @ replicate n (CHR ''0'') @ '':'' | n. 1 \<le> n \<and> n \<le> 4}"
    unfolding lang.simps(3)[of "Lit ''ffff''"] lang.simps(3)[of "Repeat 0 (Some 1) (Cat (Lit '':'') (Repeat 1 (Some 4) (Lit ''0'')))"]
      lang_optional[OF ne1] zs lang.simps(1)
    by auto
  have ne2: "[] \<notin> lang (Cat (Lit ''ffff'')
               (Cat (Repeat 0 (Some 1) (Cat (Lit '':'') (Repeat 1 (Some 4) (Lit ''0''))))
                    (Lit '':'')))"
    unfolding inner by simp
  show ?thesis
    unfolding lang_optional[OF ne2] inner mappedPrefix_def by auto
qed

lemma lang_ipv6Alt11:
  "s \<in> lang ipv6Alt11 \<longleftrightarrow> (\<exists>p q. mappedPrefix p \<and> dottedQuad q \<and> s = ''::'' @ p @ q)"
proof
  assume "s \<in> lang ipv6Alt11"
  then obtain t where t: "s = ''::'' @ t"
      "t \<in> lang (Cat (Repeat 0 (Some 1)
               (Cat (Lit ''ffff'')
               (Cat (Repeat 0 (Some 1) (Cat (Lit '':'') (Repeat 1 (Some 4) (Lit ''0''))))
                    (Lit '':'')))) v4tail)"
    unfolding ipv6Alt11_def lang_Cat_iff[of s] by auto
  from t(2) obtain p q where "t = p @ q" "mappedPrefix p" "dottedQuad q"
    unfolding lang_Cat_iff[of t] lang_mappedPrefix lang_v4tail by blast
  with t(1) show "\<exists>p q. mappedPrefix p \<and> dottedQuad q \<and> s = ''::'' @ p @ q" by blast
next
  assume "\<exists>p q. mappedPrefix p \<and> dottedQuad q \<and> s = ''::'' @ p @ q"
  then obtain p q where *: "mappedPrefix p" "dottedQuad q" "s = ''::'' @ p @ q" by blast
  have "''::'' @ p @ q \<in> lang ipv6Alt11"
    unfolding ipv6Alt11_def using *(1,2)
    by (intro lang_CatI; (unfold lang_mappedPrefix lang_v4tail)?; simp)
  then show "s \<in> lang ipv6Alt11" using *(3) by simp
qed

lemma lang_ipv6Alt12:
  "s \<in> lang ipv6Alt12 \<longleftrightarrow>
     (\<exists>L q. 1 \<le> length L \<and> length L \<le> 4 \<and> list_all hexGroup L \<and> dottedQuad q
        \<and> s = joinJS '':'' L @ ''::'' @ q)"
proof
  assume "s \<in> lang ipv6Alt12"
  then obtain p t where pt: "s = p @ t" "p \<in> lang (Repeat 1 (Some 4) h16c)"
      "t \<in> lang (Cat (Lit '':'') v4tail)"
    unfolding ipv6Alt12_def lang_Cat_iff[of s] by blast
  from pt(2) obtain L where L: "p = colonAfter L" "1 \<le> length L" "length L \<le> 4"
      "list_all hexGroup L"
    by (rule Repeat_h16cE) simp
  from pt(3) obtain q where q: "t = '':'' @ q" "dottedQuad q"
    unfolding lang_Cat_iff[of t] lang_v4tail by auto
  have "L \<noteq> []" using L(2) by auto
  then have "s = joinJS '':'' L @ ''::'' @ q"
    using pt(1) L(1) q(1) by (simp add: colonAfter_joinJS)
  with L(2,3,4) q(2) show "\<exists>L q. 1 \<le> length L \<and> length L \<le> 4 \<and> list_all hexGroup L \<and> dottedQuad q
        \<and> s = joinJS '':'' L @ ''::'' @ q"
    by blast
next
  assume "\<exists>L q. 1 \<le> length L \<and> length L \<le> 4 \<and> list_all hexGroup L \<and> dottedQuad q
        \<and> s = joinJS '':'' L @ ''::'' @ q"
  then obtain L q where *: "1 \<le> length L" "length L \<le> 4" "list_all hexGroup L" "dottedQuad q"
      "s = joinJS '':'' L @ ''::'' @ q"
    by blast
  have ne: "L \<noteq> []" using *(1) by auto
  have "q \<in> lang v4tail" using *(4) lang_v4tail by simp
  then have "colonAfter L @ '':'' @ q \<in> lang ipv6Alt12"
    unfolding ipv6Alt12_def using *(1,2,3) by (intro lang_CatI Repeat_h16cI) simp_all
  moreover have "s = colonAfter L @ '':'' @ q"
    using *(5) ne by (simp add: colonAfter_joinJS)
  ultimately show "s \<in> lang ipv6Alt12" by simp
qed

lemma isValidIPv6_iff:
  "isValidIPv6 s \<longleftrightarrow> fullForm s \<or> compressedForm s \<or> zoneForm s \<or> tailForm s"
proof -
  have "s \<in> lang ipv6Regex \<longleftrightarrow>
      s \<in> lang ipv6Alt1 \<union> lang ipv6Alt2 \<union> lang ipv6Alt3 \<union> lang ipv6Alt4 \<union> lang ipv6Alt5
        \<union> lang ipv6Alt6 \<union> lang ipv6Alt7 \<union> lang ipv6Alt8 \<union> lang ipv6Alt9
      \<or> s \<in> lang ipv6Alt10 \<or> s \<in> lang ipv6Alt11 \<or> s \<in> lang ipv6Alt12"
    unfolding ipv6Regex_def lang.simps(4) by blast
  then show ?thesis
    unfolding isValidIPv6_def test_lang lang_hex_alts lang_ipv6Alt10 lang_ipv6Alt11 lang_ipv6Alt12
      tailForm_def
    by blast
qed


section \<open>Expansion and reversal of IPv6 strings\<close>

subsection \<open>Where a double colon can occur\<close>

lemma prefix_dcolon:
  "prefix ''::'' s \<longleftrightarrow> (\<exists>t. s = CHR '':'' # CHR '':'' # t)"
  by (auto simp: prefix_def)

lemma includesJS_dcolon_Cons:
  "includesJS ''::'' (x # s) \<longleftrightarrow> (x = CHR '':'' \<and> s \<noteq> [] \<and> hd s = CHR '':'') \<or> includesJS ''::'' s"
  by (cases s) auto

lemma includesJS_dcolon_append:
  "includesJS ''::'' (a @ b) \<longleftrightarrow>
     includesJS ''::'' a \<or> includesJS ''::'' b
     \<or> (a \<noteq> [] \<and> last a = CHR '':'' \<and> b \<noteq> [] \<and> hd b = CHR '':'')"
proof (induction a)
  case Nil
  show ?case by simp
next
  case (Cons x a)
  show ?case
    unfolding append_Cons includesJS_dcolon_Cons Cons.IH
    by (cases a; cases b) auto
qed

lemma includesJS_dcolon_free: "CHR '':'' \<notin> set g \<Longrightarrow> \<not> includesJS ''::'' g"
  by (induction g) (auto simp: includesJS_dcolon_Cons simp del: includesJS.simps(2))

text \<open>Words joined by colons have no double colon.\<close>

lemma words_simps [simp]:
  "words []"
  "words (g # gs) \<longleftrightarrow> g \<noteq> [] \<and> CHR '':'' \<notin> set g \<and> words gs"
  "words (gs @ hs) \<longleftrightarrow> words gs \<and> words hs"
  "words (rev gs) \<longleftrightarrow> words gs"
  by (auto simp: words_def)

lemma word_ends:
  assumes "g \<noteq> []" "CHR '':'' \<notin> set g"
  shows "hd g \<noteq> CHR '':''" "last g \<noteq> CHR '':''"
  using assms hd_in_set[of g] last_in_set[of g] by metis+

lemma joinJS_words_ends:
  assumes "words gs" "gs \<noteq> []"
  shows "joinJS '':'' gs \<noteq> []" "hd (joinJS '':'' gs) \<noteq> CHR '':''" "last (joinJS '':'' gs) \<noteq> CHR '':''"
proof -
  obtain g hs where gs: "gs = g # hs" using assms(2) by (cases gs) auto
  have g: "g \<noteq> []" "CHR '':'' \<notin> set g" using assms(1) gs by simp_all
  show "joinJS '':'' gs \<noteq> []" using g(1) gs by (simp add: joinJS_Cons)
  show "hd (joinJS '':'' gs) \<noteq> CHR '':''"
    using word_ends(1)[OF g] g(1) gs by (simp add: joinJS_Cons)
  show "last (joinJS '':'' gs) \<noteq> CHR '':''"
    using assms
  proof (induction gs)
    case Nil
    then show ?case by simp
  next
    case (Cons x xs)
    show ?case
    proof (cases xs)
      case Nil
      then show ?thesis using Cons.prems word_ends(2)[of x] by simp
    next
      case (Cons y ys)
      then have "joinJS '':'' xs \<noteq> []" using Cons.prems by (cases y) (auto simp: joinJS_Cons)
      then show ?thesis using Cons Cons.IH Cons.prems by simp
    qed
  qed
qed

lemma joinJS_words_no_dcolon: "words gs \<Longrightarrow> \<not> includesJS ''::'' (joinJS '':'' gs)"
proof (induction gs)
  case Nil
  show ?case by simp
next
  case (Cons g gs)
  show ?case
  proof (cases gs)
    case Nil
    then show ?thesis using Cons.prems by (simp add: includesJS_dcolon_free)
  next
    case (Cons h hs)
    have w: "words gs" "gs \<noteq> []" using Cons Cons.prems by simp_all
    have "\<not> includesJS ''::'' ('':'' @ joinJS '':'' gs)"
      unfolding includesJS_dcolon_append
      using Cons.IH w joinJS_words_ends(2)[OF w] by simp
    moreover have "last g \<noteq> CHR '':''" using Cons.prems by (intro word_ends(2)) simp_all
    moreover have "\<not> includesJS ''::'' g" using Cons.prems by (simp add: includesJS_dcolon_free)
    ultimately have "\<not> includesJS ''::'' (g @ '':'' @ joinJS '':'' gs)"
      unfolding includesJS_dcolon_append[of g] by simp
    then show ?thesis using Cons by simp
  qed
qed

lemma joinJS_words_colon_no_dcolon: "words gs \<Longrightarrow> \<not> includesJS ''::'' (joinJS '':'' gs @ '':'')"
proof (cases "gs = []")
  case True
  then show ?thesis by simp
next
  case False
  assume w: "words gs"
  show ?thesis
    unfolding includesJS_dcolon_append
    using joinJS_words_no_dcolon[OF w] joinJS_words_ends(3)[OF w False] by simp
qed

lemma splitJS_words: "words gs \<Longrightarrow> gs \<noteq> [] \<Longrightarrow> splitJS '':'' (joinJS '':'' gs) = gs"
  by (intro splitJS_char_joinJS) (auto simp: words_def)

lemma splitJS_compressed:
  assumes "words L" "words R"
  shows "splitJS ''::'' (joinJS '':'' L @ ''::'' @ joinJS '':'' R) = [joinJS '':'' L, joinJS '':'' R]"
proof -
  have "splitJS ''::'' (joinJS '':'' R) = [joinJS '':'' R]"
    using joinJS_words_no_dcolon[OF assms(2)] by (rule splitJS_not_included)
  then show ?thesis
    using splitJS_dcolon[OF joinJS_words_colon_no_dcolon[OF assms(1)], of "joinJS '':'' R"]
    by simp
qed

lemma groupsOf_words:
  assumes "words gs" "i < length parts" "parts ! i = joinJS '':'' gs"
  shows "groupsOf parts i = gs"
proof (cases "gs = []")
  case True
  then show ?thesis using assms by (simp add: groupsOf_def)
next
  case False
  then show ?thesis
    using assms joinJS_words_ends(1)[OF assms(1) False] splitJS_words[OF assms(1) False]
    by (simp add: groupsOf_def)
qed

subsection \<open>Padding\<close>

lemma padStart_words: "words gs \<Longrightarrow> words (map (padStart 4 (CHR ''0'')) gs)"
  by (auto simp: words_def padStart_def)

lemma hexGroups_words: "list_all hexGroup gs \<Longrightarrow> words gs"
  using isHexDigit_not_sep by (fastforce simp: words_def hexGroup_def list_all_iff)

lemma isHexDigit_zero: "isHexDigit (CHR ''0'')"
  by (simp add: isHexDigit_def isDigit_def)

lemma padStart_hexGroup:
  "hexGroup g \<Longrightarrow> length (padStart 4 (CHR ''0'') g) = 4 \<and> list_all isHexDigit (padStart 4 (CHR ''0'') g)"
  by (auto simp: hexGroup_def padStart_def list_all_iff isHexDigit_zero)

lemma padStart_four: "length g = 4 \<Longrightarrow> padStart 4 (CHR ''0'') g = g"
  by (simp add: padStart_def)

lemma padStart_length: "4 \<le> length (padStart 4 (CHR ''0'') g)"
  by (simp add: padStart_def)

subsection \<open>Expansion\<close>

lemma expandIPv6_plain:
  "\<not> includesJS ''::'' s \<Longrightarrow>
   expandIPv6 s = Inr (joinJS '':'' (map (padStart 4 (CHR ''0'')) (splitJS '':'' s)))"
  by (simp add: expandIPv6_def)

lemma expandIPv6_compressed_parts:
  assumes "includesJS ''::'' s"
    and "length (groupsOf (splitJS ''::'' s) 0) + length (groupsOf (splitJS ''::'' s) 1) \<le> 8"
  shows "expandIPv6 s = Inr (joinJS '':'' (map (padStart 4 (CHR ''0''))
           (groupsOf (splitJS ''::'' s) 0
            @ replicate (8 - length (groupsOf (splitJS ''::'' s) 0)
                           - length (groupsOf (splitJS ''::'' s) 1)) ''0000''
            @ groupsOf (splitJS ''::'' s) 1)))"
proof -
  let ?L = "groupsOf (splitJS ''::'' s) 0" and ?R = "groupsOf (splitJS ''::'' s) 1"
  let ?full = "?L @ replicate (8 - length ?L - length ?R) ''0000'' @ ?R"
  have free: "\<forall>g\<in>set ?full. CHR '':'' \<notin> set g"
    using splitJS_char_pieces[of _ "CHR '':''"] by (auto simp: groupsOf_def)
  have "length ?full = 8" using assms(2) by simp
  then have ne: "?full \<noteq> []" by auto
  have split: "splitJS '':'' (joinJS '':'' ?full) = ?full"
    using ne free by (rule splitJS_char_joinJS)
  have m: "nat (8 - int (length ?L) - int (length ?R)) = 8 - length ?L - length ?R"
    by simp
  have nn: "\<not> (8 - int (length ?L) - int (length ?R) < 0)" using assms(2) by simp
  show ?thesis
    unfolding expandIPv6_def Let_def using assms(1) nn by (simp only: if_True if_False m split sum.case)
qed

lemma expandIPv6_compressed:
  assumes "words L" "words R" "length L + length R \<le> 8"
  shows "expandIPv6 (joinJS '':'' L @ ''::'' @ joinJS '':'' R)
         = Inr (joinJS '':'' (map (padStart 4 (CHR ''0''))
                  (L @ replicate (8 - length L - length R) ''0000'' @ R)))"
proof -
  let ?s = "joinJS '':'' L @ ''::'' @ joinJS '':'' R"
  have inc: "includesJS ''::'' ?s" unfolding includesJS_iff by blast
  have parts: "splitJS ''::'' ?s = [joinJS '':'' L, joinJS '':'' R]"
    using assms(1,2) by (rule splitJS_compressed)
  have L: "groupsOf (splitJS ''::'' ?s) 0 = L"
    unfolding parts using assms(1) by (rule groupsOf_words) simp_all
  have R: "groupsOf (splitJS ''::'' ?s) 1 = R"
    unfolding parts using assms(2) by (rule groupsOf_words) simp_all
  show ?thesis
    using expandIPv6_compressed_parts[OF inc] assms(3) unfolding L R by simp
qed

lemma expandIPv6_full:
  assumes "words gs" "gs \<noteq> []"
  shows "expandIPv6 (joinJS '':'' gs) = Inr (joinJS '':'' (map (padStart 4 (CHR ''0'')) gs))"
  using expandIPv6_plain[OF joinJS_words_no_dcolon[OF assms(1)] ] splitJS_words[OF assms]
  by simp


subsection \<open>What expansion and reversal return\<close>

lemma padStart_pieces_words:
  "\<forall>g\<in>set xs. CHR '':'' \<notin> set g \<Longrightarrow> words (map (padStart 4 (CHR ''0'')) xs)"
  by (auto simp: words_def padStart_def)

lemma groupsOf_pieces: "g \<in> set (groupsOf parts i) \<Longrightarrow> CHR '':'' \<notin> set g"
  using splitJS_char_pieces[of g "CHR '':''"] by (auto simp: groupsOf_def split: if_splits)

lemma expandIPv6_words:
  assumes "count_list s (CHR '':'') \<le> 8"
  obtains gs where "expandIPv6 s = Inr (joinJS '':'' gs)" "words gs" "gs \<noteq> []"
    "includesJS ''::'' s \<longrightarrow> length gs = 8"
    "\<not> includesJS ''::'' s \<longrightarrow> gs = map (padStart 4 (CHR ''0'')) (splitJS '':'' s)"
proof (cases "includesJS ''::'' s")
  case True
  let ?L = "groupsOf (splitJS ''::'' s) 0" and ?R = "groupsOf (splitJS ''::'' s) 1"
  let ?full = "?L @ replicate (8 - length ?L - length ?R) ''0000'' @ ?R"
  have le: "length ?L + length ?R \<le> 8"
    using groups_le_colons[OF True] assms by linarith
  have e: "expandIPv6 s = Inr (joinJS '':'' (map (padStart 4 (CHR ''0'')) ?full))"
    using expandIPv6_compressed_parts[OF True le] .
  have "\<forall>g\<in>set ?full. CHR '':'' \<notin> set g"
    using groupsOf_pieces by auto
  then have w: "words (map (padStart 4 (CHR ''0'')) ?full)" by (rule padStart_pieces_words)
  have len: "length (map (padStart 4 (CHR ''0'')) ?full) = 8" using le by simp
  then have ne: "map (padStart 4 (CHR ''0'')) ?full \<noteq> []" by auto
  show thesis using len True by (intro that[OF e w ne]) simp_all
next
  case False
  have e: "expandIPv6 s = Inr (joinJS '':'' (map (padStart 4 (CHR ''0'')) (splitJS '':'' s)))"
    using False by (rule expandIPv6_plain)
  have "\<forall>g\<in>set (splitJS '':'' s). CHR '':'' \<notin> set g"
    using splitJS_char_pieces by blast
  then have w: "words (map (padStart 4 (CHR ''0'')) (splitJS '':'' s))"
    by (rule padStart_pieces_words)
  have ne: "map (padStart 4 (CHR ''0'')) (splitJS '':'' s) \<noteq> []"
    using splitJS_not_Nil by simp
  show thesis using False by (intro that[OF e w ne]) simp_all
qed

lemma reverseIPv6_words:
  assumes "isValidIPv6 s"
  obtains gs where "expandIPv6 s = Inr (joinJS '':'' gs)" "splitJS '':'' (joinJS '':'' gs) = gs"
    "reverseIPv6 s = Inr (joinJS '':'' (rev gs))" "words gs" "gs \<noteq> []"
    "includesJS ''::'' s \<longrightarrow> length gs = 8"
    "\<not> includesJS ''::'' s \<longrightarrow> gs = map (padStart 4 (CHR ''0'')) (splitJS '':'' s)"
proof -
  from isValidIPv6_colons(2)[OF assms] obtain gs where
    gs: "expandIPv6 s = Inr (joinJS '':'' gs)" "words gs" "gs \<noteq> []"
    "includesJS ''::'' s \<longrightarrow> length gs = 8"
    "\<not> includesJS ''::'' s \<longrightarrow> gs = map (padStart 4 (CHR ''0'')) (splitJS '':'' s)"
    by (rule expandIPv6_words)
  have sp: "splitJS '':'' (joinJS '':'' gs) = gs" using gs(2,3) by (rule splitJS_words)
  have "reverseIPv6 s = Inr (joinJS '':'' (rev gs))"
    using assms gs(1) sp by (simp add: reverseIPv6_def)
  then show thesis using gs sp by (intro that[of gs]) simp_all
qed

subsection \<open>The forms as words around a double colon\<close>

lemma zoneForm_percent: "zoneForm s \<Longrightarrow> CHR ''%'' \<in> set s"
  by (auto simp: zoneForm_def)

lemma tailOctet_word: "tailOctet x \<Longrightarrow> x \<noteq> [] \<and> CHR '':'' \<notin> set x \<and> CHR ''.'' \<notin> set x"
  using isDigit_not_sep by (fastforce simp: tailOctet_def decOctet_def list_all_iff)

lemma dottedQuad_word:
  assumes "dottedQuad q"
  shows "q \<noteq> []" "CHR '':'' \<notin> set q" "CHR ''.'' \<in> set q"
proof -
  from assms obtain a b c d where *: "tailOctet a" "tailOctet b" "tailOctet c" "tailOctet d"
      "q = a @ ''.'' @ b @ ''.'' @ c @ ''.'' @ d"
    unfolding dottedQuad_def by blast
  show "q \<noteq> []" "CHR '':'' \<notin> set q" "CHR ''.'' \<in> set q"
    using *(1-4)[THEN tailOctet_word] unfolding *(5) by simp_all
qed

lemma mappedPrefix_words:
  assumes "mappedPrefix p" "q \<noteq> []" "CHR '':'' \<notin> set q"
  obtains R where "words R" "p @ q = joinJS '':'' R"
proof -
  from assms(1) consider "p = []" | "p = ''ffff:''"
    | n where "1 \<le> n" "n \<le> 4" "p = ''ffff:'' @ replicate n (CHR ''0'') @ '':''"
    unfolding mappedPrefix_def by blast
  then show thesis
  proof cases
    case 1
    show thesis using assms(2,3) 1 by (intro that[of "[q]"]) simp_all
  next
    case 2
    show thesis using assms(2,3) 2 by (intro that[of "[''ffff'', q]"]) simp_all
  next
    case 3
    show thesis using assms(2,3) 3
      by (intro that[of "[''ffff'', replicate n (CHR ''0''), q]"]) auto
  qed
qed

lemma tailForm_words:
  assumes "tailForm s"
  obtains L R where "words L" "words R" "s = joinJS '':'' L @ ''::'' @ joinJS '':'' R"
    "CHR ''.'' \<in> set s"
proof -
  from assms consider p q where "mappedPrefix p" "dottedQuad q" "s = ''::'' @ p @ q"
    | L q where "list_all hexGroup L" "dottedQuad q" "s = joinJS '':'' L @ ''::'' @ q"
    unfolding tailForm_def by blast
  then show thesis
  proof cases
    case 1
    from mappedPrefix_words[OF 1(1) dottedQuad_word(1,2)[OF 1(2)] ]
    obtain R where R: "words R" "p @ q = joinJS '':'' R" by blast
    have "s = joinJS '':'' [] @ ''::'' @ joinJS '':'' R" using 1(3) R(2) by simp
    moreover have "CHR ''.'' \<in> set s" using 1(3) dottedQuad_word(3)[OF 1(2)] by simp
    ultimately show thesis using R(1) by (intro that[of "[]" R]) simp_all
  next
    case 2
    have "words [q]" using dottedQuad_word(1,2)[OF 2(2)] by simp
    moreover have "s = joinJS '':'' L @ ''::'' @ joinJS '':'' [q]" using 2(3) by simp
    moreover have "CHR ''.'' \<in> set s" using 2(3) dottedQuad_word(3)[OF 2(2)] by simp
    ultimately show thesis using hexGroups_words[OF 2(1)] by (intro that[of L "[q]"])
  qed
qed

lemma includesJS_compressed: "includesJS ''::'' (a @ ''::'' @ b)"
  unfolding includesJS_iff by blast

lemma fullForm_split:
  assumes "fullForm s"
  obtains gs where "length gs = 8" "list_all hexGroup gs" "s = joinJS '':'' gs"
    "splitJS '':'' s = gs" "\<not> includesJS ''::'' s"
proof -
  from assms obtain gs where gs: "length gs = 8" "list_all hexGroup gs" "s = joinJS '':'' gs"
    unfolding fullForm_def by blast
  have w: "words gs" using gs(2) by (rule hexGroups_words)
  have ne: "gs \<noteq> []" using gs(1) by auto
  show thesis
    using gs splitJS_words[OF w ne] joinJS_words_no_dcolon[OF w] by (intro that[of gs]) simp_all
qed

lemma isValidIPv6_plain:
  assumes "isValidIPv6 s" "\<not> includesJS ''::'' s" "CHR ''%'' \<notin> set s"
  shows "fullForm s"
proof -
  have "\<not> compressedForm s"
    using assms(2) includesJS_compressed by (auto simp: compressedForm_def)
  moreover have "\<not> zoneForm s" using assms(3) zoneForm_percent by blast
  moreover have "\<not> tailForm s"
    using assms(2) includesJS_compressed by (auto elim!: tailForm_words)
  ultimately show ?thesis using assms(1) isValidIPv6_iff by blast
qed

lemma isValidIPv6_pure:
  assumes "isValidIPv6 s" "\<forall>c\<in>set s. isHexDigit c \<or> c = CHR '':''"
  shows "fullForm s \<or> compressedForm s"
proof -
  have "\<not> zoneForm s"
    using assms(2) zoneForm_percent[of s] isHexDigit_not_sep[of "CHR ''%''"] by auto
  moreover have "\<not> tailForm s"
    using assms(2) isHexDigit_not_sep[of "CHR ''.''"] by (auto elim!: tailForm_words)
  ultimately show ?thesis using assms(1) isValidIPv6_iff by blast
qed

lemma splitJS_dcolon_valid:
  assumes "isValidIPv6 s" "CHR ''%'' \<notin> set s"
  shows "length (splitJS ''::'' s) \<le> 2"
proof -
  have "\<not> zoneForm s" using assms(2) zoneForm_percent by blast
  then consider "fullForm s" | "compressedForm s" | "tailForm s"
    using assms(1) isValidIPv6_iff by blast
  then show ?thesis
  proof cases
    case 1
    then have "\<not> includesJS ''::'' s" by (rule fullForm_split)
    then show ?thesis by (simp add: splitJS_not_included)
  next
    case 2
    then obtain L R where "list_all hexGroup L" "list_all hexGroup R"
        "s = joinJS '':'' L @ ''::'' @ joinJS '':'' R"
      by (rule compressedFormE)
    then show ?thesis using splitJS_compressed[of L R] hexGroups_words by simp
  next
    case 3
    then obtain L R where "words L" "words R" "s = joinJS '':'' L @ ''::'' @ joinJS '':'' R"
      by (rule tailForm_words)
    then show ?thesis using splitJS_compressed[of L R] by simp
  qed
qed


subsection \<open>Expansion of the forms made of groups\<close>

lemma isValidIPv6_compressed:
  "list_all hexGroup L \<Longrightarrow> list_all hexGroup R \<Longrightarrow> length L + length R \<le> 7
   \<Longrightarrow> isValidIPv6 (joinJS '':'' L @ ''::'' @ joinJS '':'' R)"
  unfolding isValidIPv6_iff compressedForm_def by blast

lemma isValidIPv6_full:
  "list_all hexGroup gs \<Longrightarrow> length gs = 8 \<Longrightarrow> isValidIPv6 (joinJS '':'' gs)"
  unfolding isValidIPv6_iff fullForm_def by blast

lemma expandIPv6_hex_compressed:
  assumes "list_all hexGroup L" "list_all hexGroup R" "length L + length R \<le> 7"
  shows "expandIPv6 (joinJS '':'' L @ ''::'' @ joinJS '':'' R)
         = Inr (joinJS '':'' (map (padStart 4 (CHR ''0'')) L
                  @ replicate (8 - length L - length R) ''0000''
                  @ map (padStart 4 (CHR ''0'')) R))"
proof -
  have "padStart 4 (CHR ''0'') ''0000'' = ''0000''" by (simp add: padStart_def)
  then show ?thesis
    using expandIPv6_compressed[OF hexGroups_words[OF assms(1)] hexGroups_words[OF assms(2)] ] assms(3)
    by simp
qed

lemma fullyExpandedI:
  "length gs = 8 \<Longrightarrow> list_all (\<lambda>g. length g = 4 \<and> list_all isHexDigit g) gs
   \<Longrightarrow> fullyExpanded (joinJS '':'' gs)"
  unfolding fullyExpanded_def by blast

lemma padded_groups:
  "list_all hexGroup gs \<Longrightarrow>
   list_all (\<lambda>g. length g = 4 \<and> list_all isHexDigit g) (map (padStart 4 (CHR ''0'')) gs)"
  using padStart_hexGroup by (auto simp: list_all_iff)

lemma zero_groups: "list_all (\<lambda>g. length g = 4 \<and> list_all isHexDigit g) (replicate n ''0000'')"
  by (simp add: list_all_iff isHexDigit_zero)

lemma expandIPv6_pure:
  assumes "isValidIPv6 s" "\<forall>c\<in>set s. isHexDigit c \<or> c = CHR '':''"
  shows "\<exists>x. expandIPv6 s = Inr x \<and> fullyExpanded x"
proof -
  from isValidIPv6_pure[OF assms] show ?thesis
  proof
    assume "fullForm s"
    then obtain gs where gs: "length gs = 8" "list_all hexGroup gs" "s = joinJS '':'' gs"
      by (rule fullForm_split)
    have ne: "gs \<noteq> []" using gs(1) by auto
    have "expandIPv6 s = Inr (joinJS '':'' (map (padStart 4 (CHR ''0'')) gs))"
      unfolding gs(3) using hexGroups_words[OF gs(2)] ne by (rule expandIPv6_full)
    moreover have "fullyExpanded (joinJS '':'' (map (padStart 4 (CHR ''0'')) gs))"
      using gs(1) padded_groups[OF gs(2)] by (intro fullyExpandedI) simp_all
    ultimately show ?thesis by blast
  next
    assume "compressedForm s"
    then obtain L R where *: "length L + length R \<le> 7" "list_all hexGroup L" "list_all hexGroup R"
        "s = joinJS '':'' L @ ''::'' @ joinJS '':'' R"
      by (rule compressedFormE)
    let ?gs = "map (padStart 4 (CHR ''0'')) L @ replicate (8 - length L - length R) ''0000''
                  @ map (padStart 4 (CHR ''0'')) R"
    have "expandIPv6 s = Inr (joinJS '':'' ?gs)"
      unfolding *(4) using *(2,3,1) by (rule expandIPv6_hex_compressed)
    moreover have "length ?gs = 8" using *(1) by simp
    moreover have "list_all (\<lambda>g. length g = 4 \<and> list_all isHexDigit g) ?gs"
      using padded_groups[OF *(2)] padded_groups[OF *(3)] zero_groups by simp
    ultimately show ?thesis using fullyExpandedI[of ?gs] by blast
  qed
qed

lemma expandIPv6_valid_compressed:
  assumes "isValidIPv6 s" "includesJS ''::'' s"
  shows "length (groupsOf (splitJS ''::'' s) 0) + length (groupsOf (splitJS ''::'' s) 1) \<le> 8"
    and "expandIPv6 s = Inr (joinJS '':'' (map (padStart 4 (CHR ''0''))
           (groupsOf (splitJS ''::'' s) 0
            @ replicate (8 - length (groupsOf (splitJS ''::'' s) 0)
                           - length (groupsOf (splitJS ''::'' s) 1)) ''0000''
            @ groupsOf (splitJS ''::'' s) 1)))"
proof -
  show le: "length (groupsOf (splitJS ''::'' s) 0) + length (groupsOf (splitJS ''::'' s) 1) \<le> 8"
    using groups_le_colons[OF assms(2)] isValidIPv6_colons(2)[OF assms(1)] by linarith
  show "expandIPv6 s = Inr (joinJS '':'' (map (padStart 4 (CHR ''0''))
           (groupsOf (splitJS ''::'' s) 0
            @ replicate (8 - length (groupsOf (splitJS ''::'' s) 0)
                           - length (groupsOf (splitJS ''::'' s) 1)) ''0000''
            @ groupsOf (splitJS ''::'' s) 1)))"
    using assms(2) le by (rule expandIPv6_compressed_parts)
qed

lemma fullyExpanded_split:
  assumes "fullyExpanded x"
  shows "list_all (\<lambda>g. length g = 4 \<and> list_all isHexDigit g) (splitJS '':'' x)"
proof -
  from assms obtain gs where gs: "length gs = 8"
      "list_all (\<lambda>g. length g = 4 \<and> list_all isHexDigit g) gs" "x = joinJS '':'' gs"
    unfolding fullyExpanded_def by blast
  have "list_all hexGroup gs" using gs(2) by (auto simp: list_all_iff hexGroup_def)
  then have "words gs" by (rule hexGroups_words)
  moreover have "gs \<noteq> []" using gs(1) by auto
  ultimately have "splitJS '':'' x = gs" unfolding gs(3) by (rule splitJS_words)
  then show ?thesis using gs(2) by simp
qed

text \<open>
  C4.  The valid string \<open>::ffff:1.2.3.4\<close> is not expanded to eight groups of four
  hexadecimal characters.  \<open>expandIPv6\<close> takes the dotted tail for one group: it puts six
  groups \<open>0000\<close> in front of \<open>ffff\<close> and leaves the tail as it is, seven characters with
  dots in them, so the result is not a fully expanded address.  A zone suffix is taken
  for a part of the last group in the same way: the last group of the expansion of
  \<open>fe80::1%eth0\<close> is \<open>1%eth0\<close>.
\<close>

theorem expandIPv6_dotted_tail_unexpanded:
  "isValidIPv6 ''::ffff:1.2.3.4''
   \<and> expandIPv6 ''::ffff:1.2.3.4'' = Inr ''0000:0000:0000:0000:0000:0000:ffff:1.2.3.4''
   \<and> splitJS '':'' ''0000:0000:0000:0000:0000:0000:ffff:1.2.3.4''
        = [''0000'', ''0000'', ''0000'', ''0000'', ''0000'', ''0000'', ''ffff'', ''1.2.3.4'']
   \<and> length ''1.2.3.4'' = 7 \<and> \<not> list_all isHexDigit ''1.2.3.4''
   \<and> \<not> fullyExpanded ''0000:0000:0000:0000:0000:0000:ffff:1.2.3.4''
   \<and> isValidIPv6 ''fe80::1%eth0''
   \<and> expandIPv6 ''fe80::1%eth0'' = Inr ''fe80:0000:0000:0000:0000:0000:0000:1%eth0''"
proof -
  have a: "isValidIPv6 ''::ffff:1.2.3.4''" by code_simp
  have b: "expandIPv6 ''::ffff:1.2.3.4'' = Inr ''0000:0000:0000:0000:0000:0000:ffff:1.2.3.4''"
    by code_simp
  have c: "splitJS '':'' ''0000:0000:0000:0000:0000:0000:ffff:1.2.3.4''
        = [''0000'', ''0000'', ''0000'', ''0000'', ''0000'', ''0000'', ''ffff'', ''1.2.3.4'']"
    by code_simp
  have d: "length ''1.2.3.4'' = 7" by simp
  have e: "\<not> list_all isHexDigit ''1.2.3.4''" by code_simp
  have f: "\<not> fullyExpanded ''0000:0000:0000:0000:0000:0000:ffff:1.2.3.4''"
  proof
    assume "fullyExpanded ''0000:0000:0000:0000:0000:0000:ffff:1.2.3.4''"
    then have "list_all (\<lambda>g. length g = 4 \<and> list_all isHexDigit g)
        (splitJS '':'' ''0000:0000:0000:0000:0000:0000:ffff:1.2.3.4'')"
      by (rule fullyExpanded_split)
    then show False unfolding c by simp
  qed
  have g: "isValidIPv6 ''fe80::1%eth0''" by code_simp
  have h: "expandIPv6 ''fe80::1%eth0'' = Inr ''fe80:0000:0000:0000:0000:0000:0000:1%eth0''"
    by code_simp
  show ?thesis using a b c d e f g h by simp
qed

text \<open>
  C6.  The string \<open>fe80::1::2%eth0\<close> has two \<open>::\<close> and is accepted.  It matches the
  zone alternative, whose groups may have no digit at all; the same alternative accepts
  \<open>fe80:%eth0\<close> and \<open>fe80:::::%e\<close>.  Every other alternative asks for one to four digits
  in a group and has one \<open>::\<close>: without the zone suffix the string is rejected, as is
  \<open>1::2::3\<close>.
\<close>

theorem isValidIPv6_zone_two_double_colons:
  "isValidIPv6 ''fe80::1::2%eth0''
   \<and> splitJS ''::'' ''fe80::1::2%eth0'' = [''fe80'', ''1'', ''2%eth0'']
   \<and> test ipv6Alt10 ''fe80::1::2%eth0''
   \<and> isValidIPv6 ''fe80:%eth0'' \<and> isValidIPv6 ''fe80:::::%e''
   \<and> \<not> isValidIPv6 ''fe80::1::2'' \<and> \<not> isValidIPv6 ''1::2::3''"
proof -
  have a: "isValidIPv6 ''fe80::1::2%eth0''" by code_simp
  have b: "splitJS ''::'' ''fe80::1::2%eth0'' = [''fe80'', ''1'', ''2%eth0'']" by code_simp
  have c: "test ipv6Alt10 ''fe80::1::2%eth0''" by code_simp
  have d: "isValidIPv6 ''fe80:%eth0''" "isValidIPv6 ''fe80:::::%e''" by code_simp+
  have e: "\<not> isValidIPv6 ''fe80::1::2''" "\<not> isValidIPv6 ''1::2::3''" by code_simp+
  show ?thesis using a b c d e by simp
qed

subsection \<open>Reversal of IPv6 strings\<close>

lemma zoneForm_plain:
  assumes "zoneForm s" "\<not> includesJS ''::'' s"
  shows "count_list s (CHR '':'') = 1"
proof -
  from assms(1) obtain gs z where *: "list_all isAlnum z"
      "s = ''fe80:'' @ colonBefore gs @ ''%'' @ z"
    unfolding zoneForm_def by blast
  have "gs = []"
  proof (rule ccontr)
    assume "gs \<noteq> []"
    then obtain g hs where "gs = g # hs" by (cases gs) auto
    then have "s = ''fe80'' @ ''::'' @ (g @ colonBefore hs @ ''%'' @ z)"
      using *(2) by (simp add: colonBefore_def)
    then show False using assms(2) includesJS_compressed by metis
  qed
  moreover have "count_list z (CHR '':'') = 0"
    using *(1) isAlnum_not_sep by (auto simp: count_list_0_iff list_all_iff)
  ultimately show ?thesis using *(2) by (simp add: colonBefore_def)
qed

lemma fullForm_no_percent: "fullForm s \<Longrightarrow> CHR ''%'' \<notin> set s"
proof -
  assume "fullForm s"
  then have "isValidIPv6 s" "\<forall>c\<in>set s. isHexDigit c \<or> c = CHR '':''"
  proof -
    assume f: "fullForm s"
    show "isValidIPv6 s" using f isValidIPv6_iff by blast
    from f obtain gs where gs: "list_all hexGroup gs" "s = joinJS '':'' gs"
      unfolding fullForm_def by blast
    have "\<forall>c\<in>set (joinJS '':'' gs). isHexDigit c \<or> c = CHR '':''"
      using gs(1)
    proof (induction gs)
      case Nil
      show ?case by simp
    next
      case (Cons g gs)
      then show ?case by (cases gs) (auto simp: hexGroup_def list_all_iff)
    qed
    then show "\<forall>c\<in>set s. isHexDigit c \<or> c = CHR '':''" using gs(2) by simp
  qed
  then show ?thesis using isHexDigit_not_sep[of "CHR ''%''"] by auto
qed

lemma expanded_length:
  assumes "isValidIPv6 s" "expandIPv6 s = Inr x"
  shows "includesJS ''::'' s \<or> CHR ''%'' \<notin> set s \<longrightarrow> length (splitJS '':'' x) = 8"
    and "\<not> includesJS ''::'' s \<and> CHR ''%'' \<in> set s \<longrightarrow> length (splitJS '':'' x) = 2"
proof -
  from assms(1) obtain gs where gs: "expandIPv6 s = Inr (joinJS '':'' gs)"
      "splitJS '':'' (joinJS '':'' gs) = gs"
      "includesJS ''::'' s \<longrightarrow> length gs = 8"
      "\<not> includesJS ''::'' s \<longrightarrow> gs = map (padStart 4 (CHR ''0'')) (splitJS '':'' s)"
    by (rule reverseIPv6_words)
  have x: "splitJS '':'' x = gs" using gs(1,2) assms(2) by simp
  show "includesJS ''::'' s \<or> CHR ''%'' \<notin> set s \<longrightarrow> length (splitJS '':'' x) = 8"
  proof (cases "includesJS ''::'' s")
    case True
    then show ?thesis using gs(3) x by simp
  next
    case False
    show ?thesis
    proof
      assume "includesJS ''::'' s \<or> CHR ''%'' \<notin> set s"
      then have "CHR ''%'' \<notin> set s" using False by simp
      then have "fullForm s" using assms(1) False by (intro isValidIPv6_plain)
      then obtain hs where "length hs = 8" "splitJS '':'' s = hs" by (rule fullForm_split)
      then show "length (splitJS '':'' x) = 8" using gs(4) False x by simp
    qed
  qed
  show "\<not> includesJS ''::'' s \<and> CHR ''%'' \<in> set s \<longrightarrow> length (splitJS '':'' x) = 2"
  proof
    assume a: "\<not> includesJS ''::'' s \<and> CHR ''%'' \<in> set s"
    have "\<not> fullForm s" using a fullForm_no_percent by blast
    moreover have "\<not> compressedForm s"
      using a includesJS_compressed by (auto simp: compressedForm_def)
    moreover have "\<not> tailForm s"
      using a includesJS_compressed by (auto elim!: tailForm_words)
    ultimately have "zoneForm s" using assms(1) isValidIPv6_iff by blast
    then have "count_list s (CHR '':'') = 1" using a by (intro zoneForm_plain) simp_all
    then have "length (splitJS '':'' s) = 2" by (simp add: length_splitJS_char)
    then show "length (splitJS '':'' x) = 2" using gs(4) a x by simp
  qed
qed

lemma reverseIPv6_valid:
  assumes "isValidIPv6 s"
  shows "\<exists>x. expandIPv6 s = Inr x
         \<and> reverseIPv6 s = Inr (joinJS '':'' (rev (splitJS '':'' x)))
         \<and> \<not> includesJS ''::'' (joinJS '':'' (rev (splitJS '':'' x)))
         \<and> (includesJS ''::'' s \<or> CHR ''%'' \<notin> set s \<longrightarrow> length (splitJS '':'' x) = 8)"
proof -
  from assms obtain gs where gs: "expandIPv6 s = Inr (joinJS '':'' gs)"
      "splitJS '':'' (joinJS '':'' gs) = gs"
      "reverseIPv6 s = Inr (joinJS '':'' (rev gs))" "words gs"
    by (rule reverseIPv6_words)
  have "words (rev gs)" using gs(4) by simp
  then have n: "\<not> includesJS ''::'' (joinJS '':'' (rev gs))" by (rule joinJS_words_no_dcolon)
  show ?thesis
    using gs(1,3) n expanded_length(1)[OF assms gs(1)] unfolding gs(2)
    by (intro exI[of _ "joinJS '':'' gs"]) (simp add: gs(2))
qed

lemma reverseIPv6_invalid:
  "\<not> isValidIPv6 s \<Longrightarrow> \<exists>m. reverseIPv6 s = Inl (InvalidAddress m)"
  by (simp add: reverseIPv6_def)

text \<open>
  C3.  The string \<open>fe80:%eth0\<close> is accepted by the zone alternative with no group after
  \<open>fe80:\<close>.  It has no \<open>::\<close>, so \<open>expandIPv6\<close> inserts nothing and the expanded form is the
  string itself, with two groups and not eight.  \<open>reverseIPv6\<close> returns \<open>%eth0:fe80\<close>,
  which is not a fully expanded reversed form.  The example of full form is reversed
  group by group.
\<close>

theorem reverseIPv6_zone_two_groups:
  "isValidIPv6 ''fe80:%eth0''
   \<and> expandIPv6 ''fe80:%eth0'' = Inr ''fe80:%eth0''
   \<and> splitJS '':'' ''fe80:%eth0'' = [''fe80'', ''%eth0'']
   \<and> length (splitJS '':'' ''fe80:%eth0'') = 2
   \<and> reverseIPv6 ''fe80:%eth0'' = Inr ''%eth0:fe80''
   \<and> reverseIPv6 ''2001:0db8:85a3:0000:0000:8a2e:0370:7334''
       = Inr ''7334:0370:8a2e:0000:0000:85a3:0db8:2001''"
proof -
  have a: "isValidIPv6 ''fe80:%eth0''" by code_simp
  have b: "expandIPv6 ''fe80:%eth0'' = Inr ''fe80:%eth0''" by code_simp
  have c: "splitJS '':'' ''fe80:%eth0'' = [''fe80'', ''%eth0'']" by code_simp
  have d: "reverseIPv6 ''fe80:%eth0'' = Inr ''%eth0:fe80''" by code_simp
  have e: "reverseIPv6 ''2001:0db8:85a3:0000:0000:8a2e:0370:7334''
       = Inr ''7334:0370:8a2e:0000:0000:85a3:0db8:2001''"
    by code_simp
  show ?thesis using a b c d e by simp
qed

subsection \<open>Reversing twice\<close>

lemma reverseIP_ipv4:
  assumes "isValidIPv4 s"
  obtains y where "reverseIP s = Inr y" "isValidIPv4 y" "reverseIP y = Inr s"
proof -
  from assms obtain a b c d where *: "s = a @ ''.'' @ b @ ''.'' @ c @ ''.'' @ d"
      "decOctet a" "decOctet b" "decOctet c" "decOctet d"
    unfolding isValidIPv4_iff by blast
  let ?y = "d @ ''.'' @ c @ ''.'' @ b @ ''.'' @ a"
  have y: "isValidIPv4 ?y" unfolding isValidIPv4_iff using *(2-5) by blast
  have "reverseIPv4 s = Inr ?y" unfolding *(1) using *(2-5) by (rule reverseIPv4_dotted)
  then have 1: "reverseIP s = Inr ?y" using assms by (simp add: reverseIP_def)
  have "reverseIPv4 ?y = Inr s" unfolding *(1) using *(5,4,3,2) by (rule reverseIPv4_dotted)
  then have 2: "reverseIP ?y = Inr s" using y by (simp add: reverseIP_def)
  show thesis using 1 y 2 by (rule that)
qed

lemma fullyExpanded_groups:
  assumes "fullyExpanded s"
  obtains gs where "length gs = 8" "list_all (\<lambda>g. length g = 4 \<and> list_all isHexDigit g) gs"
    "s = joinJS '':'' gs" "list_all hexGroup gs" "map (padStart 4 (CHR ''0'')) gs = gs"
proof -
  from assms obtain gs where gs: "length gs = 8"
      "list_all (\<lambda>g. length g = 4 \<and> list_all isHexDigit g) gs" "s = joinJS '':'' gs"
    unfolding fullyExpanded_def by blast
  have "list_all hexGroup gs" using gs(2) by (auto simp: list_all_iff hexGroup_def)
  moreover have "map (padStart 4 (CHR ''0'')) gs = gs"
    using gs(2) by (auto simp: list_all_iff padStart_four intro: map_idI)
  ultimately show thesis using gs by (intro that[of gs])
qed

lemma reverseIP_groups:
  assumes "length gs = 8" "list_all (\<lambda>g. length g = 4 \<and> list_all isHexDigit g) gs"
  shows "reverseIP (joinJS '':'' gs) = Inr (joinJS '':'' (rev gs))"
proof -
  have hg: "list_all hexGroup gs" using assms(2) by (auto simp: list_all_iff hexGroup_def)
  have pad: "map (padStart 4 (CHR ''0'')) gs = gs"
    using assms(2) by (auto simp: list_all_iff padStart_four intro: map_idI)
  have ne: "gs \<noteq> []" using assms(1) by auto
  have w: "words gs" using hg by (rule hexGroups_words)
  have v6: "isValidIPv6 (joinJS '':'' gs)" using hg assms(1) by (rule isValidIPv6_full)
  then have nv4: "\<not> isValidIPv4 (joinJS '':'' gs)"
    using isValidIPv4_no_colon(1) isValidIPv6_has_colon by blast
  have "expandIPv6 (joinJS '':'' gs) = Inr (joinJS '':'' gs)"
    using expandIPv6_full[OF w ne] pad by simp
  then have "reverseIPv6 (joinJS '':'' gs) = Inr (joinJS '':'' (rev gs))"
    using v6 splitJS_words[OF w ne] by (simp add: reverseIPv6_def)
  then show ?thesis using nv4 v6 by (simp add: reverseIP_def)
qed

lemma reverseIP_fullyExpanded:
  assumes "fullyExpanded s"
  obtains y where "reverseIP s = Inr y" "fullyExpanded y" "reverseIP y = Inr s"
proof -
  from assms obtain gs where gs: "length gs = 8"
      "list_all (\<lambda>g. length g = 4 \<and> list_all isHexDigit g) gs" "s = joinJS '':'' gs"
    by (rule fullyExpanded_groups)
  have r: "length (rev gs) = 8" "list_all (\<lambda>g. length g = 4 \<and> list_all isHexDigit g) (rev gs)"
    using gs(1,2) by simp_all
  have 1: "reverseIP s = Inr (joinJS '':'' (rev gs))"
    unfolding gs(3) using gs(1,2) by (rule reverseIP_groups)
  have 2: "fullyExpanded (joinJS '':'' (rev gs))" using r by (rule fullyExpandedI)
  have 3: "reverseIP (joinJS '':'' (rev gs)) = Inr s"
    using reverseIP_groups[OF r] gs(3) by simp
  show thesis using 1 2 3 by (rule that)
qed

lemma reverseIP_result_no_dcolon:
  assumes "reverseIP s = Inr y"
  shows "\<not> includesJS ''::'' y"
proof (cases "isValidIPv4 s")
  case True
  then obtain z where "reverseIP s = Inr z" "isValidIPv4 z" by (rule reverseIP_ipv4)
  then have "CHR '':'' \<notin> set y" using assms isValidIPv4_no_colon(1) by simp
  then show ?thesis by (rule includesJS_dcolon_free)
next
  case False
  then have v6: "isValidIPv6 s" using assms by (auto simp: reverseIP_def split: if_splits)
  then obtain gs where gs: "reverseIPv6 s = Inr (joinJS '':'' (rev gs))" "words gs"
    by (rule reverseIPv6_words)
  have "y = joinJS '':'' (rev gs)" using assms False v6 gs(1) by (simp add: reverseIP_def)
  moreover have "words (rev gs)" using gs(2) by simp
  ultimately show ?thesis using joinJS_words_no_dcolon by blast
qed

text \<open>
  C8 as stated fails in its IPv4 part: reversal of a valid IPv4 string is positional and
  keeps every octet as written, so reversing twice returns the original string also when
  octets have leading zeros.
\<close>

theorem reverseIP_ipv4_involution_counterexample:
  "reverseIP ''01.002.3.4'' = Inr ''4.3.002.01''
   \<and> reverseIP ''4.3.002.01'' = Inr ''01.002.3.4''
   \<and> \<not> (\<exists>s. isValidIPv4 s \<and> (\<forall>y. reverseIP s = Inr y \<longrightarrow> reverseIP y \<noteq> Inr s))"
proof -
  have a: "reverseIP ''01.002.3.4'' = Inr ''4.3.002.01''" by code_simp
  have b: "reverseIP ''4.3.002.01'' = Inr ''01.002.3.4''" by code_simp
  have c: "\<not> (\<exists>s. isValidIPv4 s \<and> (\<forall>y. reverseIP s = Inr y \<longrightarrow> reverseIP y \<noteq> Inr s))"
    using reverseIP_ipv4 by blast
  show ?thesis using a b c by blast
qed

text \<open>
  C8, amended.  On a fully expanded IPv6 address (eight groups of four hexadecimal
  digits) \<open>reverseIP\<close> applied twice returns the original string, the intermediate result
  being fully expanded too; the same holds on every valid IPv4 string, whatever its
  octets.  On a string that contains \<open>::\<close> it never does: the output is always expanded,
  as for \<open>::1\<close>.
\<close>

theorem reverseIP_twice:
  "(fullyExpanded s \<longrightarrow> (\<exists>y. reverseIP s = Inr y \<and> fullyExpanded y \<and> reverseIP y = Inr s))
   \<and> (isValidIPv4 s \<longrightarrow> (\<exists>y. reverseIP s = Inr y \<and> isValidIPv4 y \<and> reverseIP y = Inr s))
   \<and> (includesJS ''::'' s \<longrightarrow> \<not> (\<exists>y. reverseIP s = Inr y \<and> reverseIP y = Inr s))
   \<and> reverseIP ''::1'' = Inr ''0001:0000:0000:0000:0000:0000:0000:0000''
   \<and> reverseIP ''0001:0000:0000:0000:0000:0000:0000:0000''
       = Inr ''0000:0000:0000:0000:0000:0000:0000:0001''"
proof -
  have 1: "fullyExpanded s \<longrightarrow> (\<exists>y. reverseIP s = Inr y \<and> fullyExpanded y \<and> reverseIP y = Inr s)"
    using reverseIP_fullyExpanded[of s] by blast
  have 2: "isValidIPv4 s \<longrightarrow> (\<exists>y. reverseIP s = Inr y \<and> isValidIPv4 y \<and> reverseIP y = Inr s)"
    using reverseIP_ipv4[of s] by blast
  have 3: "includesJS ''::'' s \<longrightarrow> \<not> (\<exists>y. reverseIP s = Inr y \<and> reverseIP y = Inr s)"
    using reverseIP_result_no_dcolon by blast
  have 4: "reverseIP ''::1'' = Inr ''0001:0000:0000:0000:0000:0000:0000:0000''" by code_simp
  have 5: "reverseIP ''0001:0000:0000:0000:0000:0000:0000:0000''
       = Inr ''0000:0000:0000:0000:0000:0000:0000:0001''"
    by code_simp
  show ?thesis using 1 2 3 4 5 by blast
qed

theorem reverseIP_twice_witness:
  "fullyExpanded ''2001:0db8:85a3:0000:0000:8a2e:0370:7334''
   \<and> (\<exists>y. reverseIP ''2001:0db8:85a3:0000:0000:8a2e:0370:7334'' = Inr y
          \<and> reverseIP y = Inr ''2001:0db8:85a3:0000:0000:8a2e:0370:7334'')
   \<and> isValidIPv4 ''192.168.06.5''
   \<and> (\<exists>y. reverseIP ''192.168.06.5'' = Inr y \<and> reverseIP y = Inr ''192.168.06.5'')
   \<and> includesJS ''::'' ''::1''
   \<and> \<not> (\<exists>y. reverseIP ''::1'' = Inr y \<and> reverseIP y = Inr ''::1'')"
proof -
  have g: "length [''2001'', ''0db8'', ''85a3'', ''0000'', ''0000'', ''8a2e'', ''0370'', ''7334''] = 8"
    by simp
  have h: "list_all (\<lambda>g. length g = 4 \<and> list_all isHexDigit g)
      [''2001'', ''0db8'', ''85a3'', ''0000'', ''0000'', ''8a2e'', ''0370'', ''7334'']"
    by code_simp
  have "fullyExpanded (joinJS '':''
      [''2001'', ''0db8'', ''85a3'', ''0000'', ''0000'', ''8a2e'', ''0370'', ''7334''])"
    using g h by (rule fullyExpandedI)
  then have a: "fullyExpanded ''2001:0db8:85a3:0000:0000:8a2e:0370:7334''" by simp
  have b: "includesJS ''::'' ''::1''" by code_simp
  have c: "isValidIPv4 ''192.168.06.5''" by code_simp
  show ?thesis
    using a b c reverseIP_twice[of "''2001:0db8:85a3:0000:0000:8a2e:0370:7334''"]
      reverseIP_twice[of "''::1''"] reverseIP_twice[of "''192.168.06.5''"]
    by blast
qed

end
